theory Spec2Isabelle
  imports Main "HOL-Library.Word" "HOL-Library.AList"
begin

unbundle bit_operations_syntax

section \<open>GoSpeccy: keyboard matrix, input dispatch and audio reconfiguration\<close>

text \<open>
  A shallow embedding of the keyboard of \<^verbatim>\<open>src/spectrum/memory.go\<close> (the key matrix, the
  logical-key table, the symbol table, the startup self-check and the command loop) and of
  the SDL front-end of \<^verbatim>\<open>src/output/sdl/sdl.go\<close> (the event dispatcher and the audio
  reconfiguration of the renderer).

  Go's \<^verbatim>\<open>byte\<close> is an 8-bit word, \<^verbatim>\<open>uint\<close> key codes are natural numbers (no arithmetic is
  done on them), a Go map literal is an association list with distinct keys, read with
  \<^const>\<open>map_of\<close>, and a run-time panic is a value of type \<open>error\<close>. The read/write lock
  around the matrix only serialises accesses; each locked region is one atomic function
  here.
\<close>

subsection \<open>Errors and results\<close>

type_synonym byte = "8 word"

datatype error = IndexOutOfRange | Panic string

definition and_then :: "error + 'a \<Rightarrow> ('a \<Rightarrow> error + 'b) \<Rightarrow> error + 'b" where
  "and_then m f = (case m of Inl e \<Rightarrow> Inl e | Inr x \<Rightarrow> f x)"

subsection \<open>Logical key codes\<close>

named_theorems key_defs \<open>values of the logical key codes\<close>

definition KEY_1 :: nat where [key_defs]: "KEY_1 = 0"
definition KEY_2 :: nat where [key_defs]: "KEY_2 = 1"
definition KEY_3 :: nat where [key_defs]: "KEY_3 = 2"
definition KEY_4 :: nat where [key_defs]: "KEY_4 = 3"
definition KEY_5 :: nat where [key_defs]: "KEY_5 = 4"
definition KEY_6 :: nat where [key_defs]: "KEY_6 = 5"
definition KEY_7 :: nat where [key_defs]: "KEY_7 = 6"
definition KEY_8 :: nat where [key_defs]: "KEY_8 = 7"
definition KEY_9 :: nat where [key_defs]: "KEY_9 = 8"
definition KEY_0 :: nat where [key_defs]: "KEY_0 = 9"

definition KEY_Q :: nat where [key_defs]: "KEY_Q = 10"
definition KEY_W :: nat where [key_defs]: "KEY_W = 11"
definition KEY_E :: nat where [key_defs]: "KEY_E = 12"
definition KEY_R :: nat where [key_defs]: "KEY_R = 13"
definition KEY_T :: nat where [key_defs]: "KEY_T = 14"
definition KEY_Y :: nat where [key_defs]: "KEY_Y = 15"
definition KEY_U :: nat where [key_defs]: "KEY_U = 16"
definition KEY_I :: nat where [key_defs]: "KEY_I = 17"
definition KEY_O :: nat where [key_defs]: "KEY_O = 18"
definition KEY_P :: nat where [key_defs]: "KEY_P = 19"

definition KEY_A :: nat where [key_defs]: "KEY_A = 20"
definition KEY_S :: nat where [key_defs]: "KEY_S = 21"
definition KEY_D :: nat where [key_defs]: "KEY_D = 22"
definition KEY_F :: nat where [key_defs]: "KEY_F = 23"
definition KEY_G :: nat where [key_defs]: "KEY_G = 24"
definition KEY_H :: nat where [key_defs]: "KEY_H = 25"
definition KEY_J :: nat where [key_defs]: "KEY_J = 26"
definition KEY_K :: nat where [key_defs]: "KEY_K = 27"
definition KEY_L :: nat where [key_defs]: "KEY_L = 28"
definition KEY_Enter :: nat where [key_defs]: "KEY_Enter = 29"

definition KEY_CapsShift :: nat where [key_defs]: "KEY_CapsShift = 30"
definition KEY_Z :: nat where [key_defs]: "KEY_Z = 31"
definition KEY_X :: nat where [key_defs]: "KEY_X = 32"
definition KEY_C :: nat where [key_defs]: "KEY_C = 33"
definition KEY_V :: nat where [key_defs]: "KEY_V = 34"
definition KEY_B :: nat where [key_defs]: "KEY_B = 35"
definition KEY_N :: nat where [key_defs]: "KEY_N = 36"
definition KEY_M :: nat where [key_defs]: "KEY_M = 37"
definition KEY_SymbolShift :: nat where [key_defs]: "KEY_SymbolShift = 38"
definition KEY_Space :: nat where [key_defs]: "KEY_Space = 39"

subsection \<open>The logical-key table and the symbol table\<close>

record keyCell =
  row :: byte
  kmask :: byte

definition cell :: "byte \<Rightarrow> byte \<Rightarrow> keyCell" where
  "cell r m = \<lparr>row = r, kmask = m\<rparr>"

definition keyCodes :: "(nat \<times> keyCell) list" where
  "keyCodes =
   [(KEY_1, cell 3 0x01), (KEY_2, cell 3 0x02), (KEY_3, cell 3 0x04), (KEY_4, cell 3 0x08),
    (KEY_5, cell 3 0x10), (KEY_6, cell 4 0x10), (KEY_7, cell 4 0x08), (KEY_8, cell 4 0x04),
    (KEY_9, cell 4 0x02), (KEY_0, cell 4 0x01),
    (KEY_Q, cell 2 0x01), (KEY_W, cell 2 0x02), (KEY_E, cell 2 0x04), (KEY_R, cell 2 0x08),
    (KEY_T, cell 2 0x10), (KEY_Y, cell 5 0x10), (KEY_U, cell 5 0x08), (KEY_I, cell 5 0x04),
    (KEY_O, cell 5 0x02), (KEY_P, cell 5 0x01),
    (KEY_A, cell 1 0x01), (KEY_S, cell 1 0x02), (KEY_D, cell 1 0x04), (KEY_F, cell 1 0x08),
    (KEY_G, cell 1 0x10), (KEY_H, cell 6 0x10), (KEY_J, cell 6 0x08), (KEY_K, cell 6 0x04),
    (KEY_L, cell 6 0x02), (KEY_Enter, cell 6 0x01),
    (KEY_CapsShift, cell 0 0x01), (KEY_Z, cell 0 0x02), (KEY_X, cell 0 0x04),
    (KEY_C, cell 0 0x08), (KEY_V, cell 0 0x10), (KEY_B, cell 7 0x10), (KEY_N, cell 7 0x08),
    (KEY_M, cell 7 0x04), (KEY_SymbolShift, cell 7 0x02), (KEY_Space, cell 7 0x01)]"

definition SDL_KeyMap :: "(string \<times> nat list) list" where
  "SDL_KeyMap =
   [(''0'', [KEY_0]), (''1'', [KEY_1]), (''2'', [KEY_2]), (''3'', [KEY_3]), (''4'', [KEY_4]),
    (''5'', [KEY_5]), (''6'', [KEY_6]), (''7'', [KEY_7]), (''8'', [KEY_8]), (''9'', [KEY_9]),
    (''a'', [KEY_A]), (''b'', [KEY_B]), (''c'', [KEY_C]), (''d'', [KEY_D]), (''e'', [KEY_E]),
    (''f'', [KEY_F]), (''g'', [KEY_G]), (''h'', [KEY_H]), (''i'', [KEY_I]), (''j'', [KEY_J]),
    (''k'', [KEY_K]), (''l'', [KEY_L]), (''m'', [KEY_M]), (''n'', [KEY_N]), (''o'', [KEY_O]),
    (''p'', [KEY_P]), (''q'', [KEY_Q]), (''r'', [KEY_R]), (''s'', [KEY_S]), (''t'', [KEY_T]),
    (''u'', [KEY_U]), (''v'', [KEY_V]), (''w'', [KEY_W]), (''x'', [KEY_X]), (''y'', [KEY_Y]),
    (''z'', [KEY_Z]),
    (''return'', [KEY_Enter]), (''space'', [KEY_Space]),
    (''left shift'', [KEY_CapsShift]), (''right shift'', [KEY_CapsShift]),
    (''left ctrl'', [KEY_SymbolShift]), (''right ctrl'', [KEY_SymbolShift]),
    (''left'', [KEY_CapsShift, KEY_5]), (''down'', [KEY_CapsShift, KEY_6]),
    (''up'', [KEY_CapsShift, KEY_7]), (''right'', [KEY_CapsShift, KEY_8]),
    (''backspace'', [KEY_CapsShift, KEY_0]),
    (''-'', [KEY_SymbolShift, KEY_J]), (''='', [KEY_SymbolShift, KEY_L]),
    (''['', [KEY_SymbolShift, KEY_8]), ('']'', [KEY_SymbolShift, KEY_9]),
    ('';'', [KEY_SymbolShift, KEY_O]), ([CHR 0x27], [KEY_SymbolShift, KEY_7]),
    ('','', [KEY_SymbolShift, KEY_N]), (''.'', [KEY_SymbolShift, KEY_M]),
    (''/'', [KEY_SymbolShift, KEY_V]),
    (''[0]'', [KEY_0]), (''[1]'', [KEY_1]), (''[2]'', [KEY_2]), (''[3]'', [KEY_3]),
    (''[4]'', [KEY_4]), (''[5]'', [KEY_5]), (''[6]'', [KEY_6]), (''[7]'', [KEY_7]),
    (''[8]'', [KEY_8]), (''[9]'', [KEY_9]),
    (''[*]'', [KEY_SymbolShift, KEY_B]), (''[-]'', [KEY_SymbolShift, KEY_J]),
    (''[+]'', [KEY_SymbolShift, KEY_K]), (''[/]'', [KEY_SymbolShift, KEY_V])]"

subsection \<open>The key matrix\<close>

text \<open>
  \<^verbatim>\<open>keyStates [8]byte\<close>: a list of eight rows. An index outside \<open>0..7\<close> panics in Go, which
  the accessors return as \<^const>\<open>IndexOutOfRange\<close>.
\<close>

record Keyboard =
  keyStates :: "byte list"

definition wf_keyboard :: "Keyboard \<Rightarrow> bool" where
  "wf_keyboard kb = (length (keyStates kb) = 8)"

definition GetKeyState :: "nat \<Rightarrow> Keyboard \<Rightarrow> error + byte" where
  "GetKeyState r kb = (if r < 8 then Inr (keyStates kb ! r) else Inl IndexOutOfRange)"

definition SetKeyState :: "nat \<Rightarrow> byte \<Rightarrow> Keyboard \<Rightarrow> error + Keyboard" where
  "SetKeyState r state kb =
     (if r < 8 then Inr (kb\<lparr>keyStates := (keyStates kb)[r := state]\<rparr>)
      else Inl IndexOutOfRange)"

function reset_from :: "nat \<Rightarrow> Keyboard \<Rightarrow> error + Keyboard" where
  "reset_from r kb =
     (if r < 8
      then (case SetKeyState r 0xff kb of
              Inl e \<Rightarrow> Inl e
            | Inr kb' \<Rightarrow> reset_from (r + 1) kb')
      else Inr kb)"
  by pat_completeness auto
termination
  by (relation "measure (\<lambda>(r, kb). 8 - r)") auto

definition reset :: "Keyboard \<Rightarrow> error + Keyboard" where
  "reset kb = reset_from 0 kb"

definition NewKeyboard :: "error + Keyboard" where
  "NewKeyboard = reset \<lparr>keyStates = replicate 8 0\<rparr>"

definition KeyDown :: "nat \<Rightarrow> Keyboard \<Rightarrow> error + Keyboard" where
  "KeyDown logicalKeyCode kb =
     (case map_of keyCodes logicalKeyCode of
        Some keyCode \<Rightarrow>
          (let r = unat (row keyCode) in
           if r < 8
           then Inr (kb\<lparr>keyStates := (keyStates kb)[r := (keyStates kb ! r) AND NOT (kmask keyCode)]\<rparr>)
           else Inl IndexOutOfRange)
      | None \<Rightarrow> Inr kb)"

definition KeyUp :: "nat \<Rightarrow> Keyboard \<Rightarrow> error + Keyboard" where
  "KeyUp logicalKeyCode kb =
     (case map_of keyCodes logicalKeyCode of
        Some keyCode \<Rightarrow>
          (let r = unat (row keyCode) in
           if r < 8
           then Inr (kb\<lparr>keyStates := (keyStates kb)[r := (keyStates kb ! r) OR (kmask keyCode)]\<rparr>)
           else Inl IndexOutOfRange)
      | None \<Rightarrow> Inr kb)"

text \<open>
  Observations used to state the properties: the matrix bit assigned to a logical key
  (\<open>Some True\<close>: released, \<open>Some False\<close>: pressed, \<open>None\<close>: the key is unmapped), its
  position \<open>(row, bit)\<close> in the matrix, the positions \<open>(row, bit)\<close> in which two matrices differ, and the keys a matrix shows pressed.
\<close>

definition key_bit :: "nat \<Rightarrow> Keyboard \<Rightarrow> bool option" where
  "key_bit k kb =
     (case map_of keyCodes k of
        None \<Rightarrow> None
      | Some c \<Rightarrow> Some ((keyStates kb ! unat (row c)) AND kmask c \<noteq> 0))"

definition changed_bits :: "Keyboard \<Rightarrow> Keyboard \<Rightarrow> (nat \<times> nat) list" where
  "changed_bits kb kb' =
     filter (\<lambda>(r, j). bit (keyStates kb ! r) j \<noteq> bit (keyStates kb' ! r) j)
       (List.product [0..<8] [0..<8])"

definition pressed_1 :: Keyboard where
  "pressed_1 = \<lparr>keyStates = [0xff, 0xff, 0xff, 0xfe, 0xff, 0xff, 0xff, 0xff]\<rparr>"

definition all_released :: Keyboard where
  "all_released = \<lparr>keyStates = replicate 8 0xff\<rparr>"

definition key_pos :: "nat \<Rightarrow> (nat \<times> nat) option" where
  "key_pos k =
     (case map_of keyCodes k of
        None \<Rightarrow> None
      | Some c \<Rightarrow> map_option (\<lambda>b. (unat (row c), b)) (find (\<lambda>b. kmask c = 2 ^ b) [0..<8]))"

definition pressed_keys :: "Keyboard \<Rightarrow> nat list" where
  "pressed_keys kb = filter (\<lambda>k. key_bit k kb = Some False) (map fst keyCodes)"

subsection \<open>The startup self-check\<close>

text \<open>
  \<^verbatim>\<open>func init()\<close> of the keyboard file, with the two tables as parameters. \<^verbatim>\<open>len\<close> of a Go map
  counts its distinct keys; \<^verbatim>\<open>used\<close> is built with \<^const>\<open>AList.update\<close>, which overwrites
  the entry of a key that is already there, as a map assignment does. The result does not
  depend on the order in which the \<^verbatim>\<open>range\<close> loops visit the entries.
\<close>

definition len_map :: "('k \<times> 'v) list \<Rightarrow> nat" where
  "len_map m = length (remdups (map fst m))"

definition init :: "(nat \<times> keyCell) list \<Rightarrow> ('n \<times> nat list) list \<Rightarrow> error + unit" where
  "init kc km =
     (if len_map kc \<noteq> 40 then Inl (Panic ''invalid keyboard specification'')
      else
        let used0 = fold (\<lambda>(logicalKeyCode, _) used. AList.update logicalKeyCode False used) kc [];
            used1 = fold (\<lambda>(_, seq) used.
                      if length seq = 1 then AList.update (seq ! 0) True used else used) km used0
        in if list_ex (\<lambda>(_, isUsed). \<not> isUsed) used1
           then Inl (Panic ''some key is missing in the SDL keymap'')
           else Inr ())"

subsection \<open>The command loop\<close>

text \<open>
  The body of \<^verbatim>\<open>commandLoop\<close> for one received command, as the list of operations it
  performs in order: key operations on the matrix, the two sleeps, and the send of the
  completion value on the command's \<^verbatim>\<open>done\<close> channel. \<^verbatim>\<open>ROM48\<close> is declared outside the
  files at hand and is a parameter.
\<close>

datatype op = OpKeyDown nat | OpKeyUp nat | OpDelayAfterKeyDown | OpDelayAfterKeyUp | OpDone

datatype 'r cmd = Cmd_KeyPress nat | Cmd_SendLoad 'r

fun commandLoop_ops :: "'r \<Rightarrow> 'r cmd \<Rightarrow> op list" where
  "commandLoop_ops ROM48 (Cmd_KeyPress logicalKeyCode) =
     [OpKeyDown logicalKeyCode, OpDelayAfterKeyDown,
      OpKeyUp logicalKeyCode, OpDelayAfterKeyUp,
      OpDone]"
| "commandLoop_ops ROM48 (Cmd_SendLoad romType) =
     (if romType = ROM48
      then [OpKeyDown KEY_J, OpDelayAfterKeyDown, OpKeyUp KEY_J, OpDelayAfterKeyUp,
            OpKeyDown KEY_SymbolShift,
            OpKeyDown KEY_P, OpDelayAfterKeyDown, OpKeyUp KEY_P, OpDelayAfterKeyUp,
            OpKeyDown KEY_P, OpDelayAfterKeyDown, OpKeyUp KEY_P, OpDelayAfterKeyUp,
            OpKeyUp KEY_SymbolShift,
            OpKeyDown KEY_Enter, OpDelayAfterKeyDown, OpKeyUp KEY_Enter]
      else [])"

fun is_key_op :: "op \<Rightarrow> bool" where
  "is_key_op (OpKeyDown k) = True"
| "is_key_op (OpKeyUp k) = True"
| "is_key_op _ = False"

fun is_delay :: "op \<Rightarrow> bool" where
  "is_delay OpDelayAfterKeyDown = True"
| "is_delay OpDelayAfterKeyUp = True"
| "is_delay _ = False"

fun exec_op :: "op \<Rightarrow> Keyboard \<Rightarrow> error + Keyboard" where
  "exec_op (OpKeyDown k) kb = KeyDown k kb"
| "exec_op (OpKeyUp k) kb = KeyUp k kb"
| "exec_op _ kb = Inr kb"

text \<open>
  Running a list of operations on the matrix: the final matrix, and the matrices that
  stood during each sleep (what the emulated keyboard scan can observe).
\<close>

fun exec_ops :: "op list \<Rightarrow> Keyboard \<Rightarrow> error + (Keyboard \<times> Keyboard list)" where
  "exec_ops [] kb = Inr (kb, [])"
| "exec_ops (x # xs) kb =
     (case exec_op x kb of
        Inl e \<Rightarrow> Inl e
      | Inr kb' \<Rightarrow>
          (case exec_ops xs kb' of
             Inl e \<Rightarrow> Inl e
           | Inr (kbf, held) \<Rightarrow> Inr (kbf, if is_delay x then kb' # held else held)))"

subsection \<open>One call of KeyPressSequence against the command loop\<close>

text \<open>
  A buffered Go channel: a send succeeds while the buffer holds fewer than \<open>cap\<close> values
  and blocks otherwise; a receive takes the oldest value and blocks on an empty buffer.
\<close>

record channel =
  cap :: nat
  buf :: "bool list"




text \<open>
  The state of one call \<^verbatim>\<open>KeyPressSequence(keys...)\<close> running against \<^verbatim>\<open>commandLoop\<close>:
  \<^item> \<open>pending\<close>: the keys whose command the caller's \<^verbatim>\<open>range\<close> loop has still to send;
  \<^item> \<open>returned\<close>: the call has returned the channel \<^verbatim>\<open>done\<close>;
  \<^item> \<open>alive\<close>: the command loop has not taken its terminate branch;
  \<^item> \<open>todo\<close>: what is left of the body of the command the loop is handling (\<open>[]\<close>: the loop
    waits in its \<^verbatim>\<open>select\<close>); \<open>handling\<close>: the key of the command of this call that the loop
    has received last, or \<open>None\<close> when the last command received is another client's;
  \<^item> \<open>kbd\<close>: the key matrix; \<open>done_chan\<close>: the completion channel \<^verbatim>\<open>done\<close> made by the call;
  \<^item> \<open>completed\<close>: the keys for which a completion value has been sent, in the order of
    the sends; \<open>consumed\<close>: the values received so far from the returned channel.

  \<^verbatim>\<open>CommandChannel\<close> is made without a buffer, so a send on it is a rendezvous: it completes
  only when the loop is in its \<^verbatim>\<open>select\<close>. That joint step is the caller's. The consumer
  holds the channel only once the call has returned.

  The command loop serves every client of the keyboard, not only this call. The actors
  that move the state are: the caller; the command loop; the consumer of the returned
  channel; the terminate request, which the loop takes in its \<^verbatim>\<open>select\<close> and after which it
  receives no command; another client, which hands the loop a command of its own when the
  loop is in its \<^verbatim>\<open>select\<close> (\<open>handling\<close> is then \<open>None\<close>); and the receiver of that other
  client's completion channel. The completion channel of another client's command is not
  the one of this call: the loop's send on it goes through only together with a step of
  that receiver (a receive on a channel without buffer, or room in a buffered one), and
  blocks the loop until then. The pause branch of the loop echoes and changes nothing; it
  is left out, and so are the direct \<^verbatim>\<open>KeyDown\<close> and \<^verbatim>\<open>KeyUp\<close> calls of the dispatcher, which only
  change the matrix. A step of an actor gives the next state, or \<open>Blocked\<close> when the actor
  cannot move in this state, or \<open>Crashed\<close> when the step panics. Sleeps are steps like the
  others: the model orders events and does not measure time.
\<close>

record sys =
  pending :: "nat list"
  returned :: bool
  alive :: bool
  handling :: "nat option"
  todo :: "op list"
  kbd :: Keyboard
  done_chan :: channel
  completed :: "nat list"
  consumed :: "bool list"













subsection \<open>The SDL event dispatcher\<close>

text \<open>
  Modelled from the spec: the joystick of the emulation core (\<^verbatim>\<open>speccy.Joystick\<close>, its
  methods \<^verbatim>\<open>KempstonDown\<close> and \<^verbatim>\<open>KempstonUp\<close> and the identifiers \<^verbatim>\<open>KEMPSTON_*\<close>) is not among
  the files at hand. The spec gives one two-axis digital stick with four direction bits and
  one fire bit, set and cleared by the dispatcher: the state is the set of bits that are
  set, \<open>KempstonDown\<close> sets a bit and \<open>KempstonUp\<close> clears it.
\<close>

datatype kempston = KEMPSTON_RIGHT | KEMPSTON_LEFT | KEMPSTON_UP | KEMPSTON_DOWN | KEMPSTON_FIRE

type_synonym Joystick = "kempston set"

definition KempstonDown :: "kempston \<Rightarrow> Joystick \<Rightarrow> Joystick" where
  "KempstonDown b j = insert b j"

definition KempstonUp :: "kempston \<Rightarrow> Joystick \<Rightarrow> Joystick" where
  "KempstonUp b j = j - {b}"

text \<open>
  What the dispatcher acts on: the keyboard and the joystick of the emulation core and the
  application's exit request (\<^verbatim>\<open>app.RequestExit()\<close> sets it). An SDL event carries the fields
  the loop reads; the key name is the result of \<^verbatim>\<open>sdl.GetKeyName\<close>, and the type of a
  keyboard event is \<^verbatim>\<open>sdl.KEYDOWN\<close>, \<^verbatim>\<open>sdl.KEYUP\<close> or any other value. \<open>sdlEventLoop\<close> is the
  body of the loop for one event received from \<^verbatim>\<open>sdl.Events\<close>; the messages of the verbose
  modes are left out. \<open>keyCalls\<close> records the calls of \<^verbatim>\<open>speccy.Keyboard.KeyDown\<close> and
  \<^verbatim>\<open>speccy.Keyboard.KeyUp\<close> that the dispatcher has made, in the order in which it made them
  (\<open>OpKeyDown k\<close> for \<^verbatim>\<open>KeyDown(k)\<close>, \<open>OpKeyUp k\<close> for \<^verbatim>\<open>KeyUp(k)\<close>); the program does not read it.
\<close>

record frontend =
  keyboard :: Keyboard
  joystick :: Joystick
  exitRequested :: bool
  keyCalls :: "op list"

datatype key_event_type = KEYDOWN | KEYUP | OTHER_TYPE

datatype sdl_event =
    QuitEvent
  | JoyAxisEvent byte "16 word"
  | JoyButtonEvent byte byte
  | KeyboardEvent string key_event_type
  | OtherEvent

text \<open>A call of the dispatcher on the keyboard changes the matrix and is recorded.\<close>

definition callKeyDown :: "nat \<Rightarrow> frontend \<Rightarrow> error + frontend" where
  "callKeyDown k m =
     (case KeyDown k (keyboard m) of
        Inl e \<Rightarrow> Inl e
      | Inr kb \<Rightarrow> Inr (m\<lparr>keyboard := kb, keyCalls := keyCalls m @ [OpKeyDown k]\<rparr>))"

definition callKeyUp :: "nat \<Rightarrow> frontend \<Rightarrow> error + frontend" where
  "callKeyUp k m =
     (case KeyUp k (keyboard m) of
        Inl e \<Rightarrow> Inl e
      | Inr kb \<Rightarrow> Inr (m\<lparr>keyboard := kb, keyCalls := keyCalls m @ [OpKeyUp k]\<rparr>))"

text \<open>The two loops over a key sequence: \<^verbatim>\<open>for i := 0; i < len(sequence); i++\<close> and
  \<^verbatim>\<open>for i := len(sequence) - 1; i >= 0; i--\<close> (the second argument of \<open>releaseFrom\<close> is
  \<open>i + 1\<close>).\<close>

function pressFrom :: "nat list \<Rightarrow> nat \<Rightarrow> frontend \<Rightarrow> error + frontend" where
  "pressFrom sequence i m =
     (if i < length sequence
      then (case callKeyDown (sequence ! i) m of
              Inl e \<Rightarrow> Inl e
            | Inr m' \<Rightarrow> pressFrom sequence (i + 1) m')
      else Inr m)"
  by pat_completeness auto
termination
  by (relation "measure (\<lambda>(sequence, i, m). length sequence - i)") auto

declare pressFrom.simps [simp del]

fun releaseFrom :: "nat list \<Rightarrow> nat \<Rightarrow> frontend \<Rightarrow> error + frontend" where
  "releaseFrom sequence 0 m = Inr m"
| "releaseFrom sequence (Suc i) m =
     (case callKeyUp (sequence ! i) m of
        Inl e \<Rightarrow> Inl e
      | Inr m' \<Rightarrow> releaseFrom sequence i m')"

definition joyAxis :: "byte \<Rightarrow> 16 word \<Rightarrow> Joystick \<Rightarrow> Joystick" where
  "joyAxis axis v j =
     (if axis = 0 then
        (if sint v > 0 then KempstonDown KEMPSTON_RIGHT j
         else if sint v < 0 then KempstonDown KEMPSTON_LEFT j
         else KempstonUp KEMPSTON_LEFT (KempstonUp KEMPSTON_RIGHT j))
      else if axis = 1 then
        (if sint v > 0 then KempstonDown KEMPSTON_UP j
         else if sint v < 0 then KempstonDown KEMPSTON_DOWN j
         else KempstonUp KEMPSTON_DOWN (KempstonUp KEMPSTON_UP j))
      else j)"

definition joyButton :: "byte \<Rightarrow> byte \<Rightarrow> Joystick \<Rightarrow> Joystick" where
  "joyButton button state j =
     (if button = 0 then
        (if state > 0 then KempstonDown KEMPSTON_FIRE j else KempstonUp KEMPSTON_FIRE j)
      else j)"

definition keyEvent :: "string \<Rightarrow> key_event_type \<Rightarrow> frontend \<Rightarrow> error + frontend" where
  "keyEvent keyName ty m =
     (if keyName = ''escape'' \<and> ty = KEYDOWN then Inr (m\<lparr>exitRequested := True\<rparr>)
      else case map_of SDL_KeyMap keyName of
             None \<Rightarrow> Inr m
           | Some sequence \<Rightarrow>
               (case ty of
                  KEYDOWN \<Rightarrow> pressFrom sequence 0 m
                | KEYUP \<Rightarrow> releaseFrom sequence (length sequence) m
                | OTHER_TYPE \<Rightarrow> Inr m))"

fun sdlEventLoop :: "sdl_event \<Rightarrow> frontend \<Rightarrow> error + frontend" where
  "sdlEventLoop QuitEvent m = Inr (m\<lparr>exitRequested := True\<rparr>)"
| "sdlEventLoop (JoyAxisEvent axis v) m = Inr (m\<lparr>joystick := joyAxis axis v (joystick m)\<rparr>)"
| "sdlEventLoop (JoyButtonEvent button state) m =
     Inr (m\<lparr>joystick := joyButton button state (joystick m)\<rparr>)"
| "sdlEventLoop (KeyboardEvent keyName ty) m = keyEvent keyName ty m"
| "sdlEventLoop OtherEvent m = Inr m"

text \<open>The spec's words for a key sequence: apply an operation to the listed keys, in the
  listed order, stopping at the first failure.\<close>

fun apply_in_order :: "(nat \<Rightarrow> Keyboard \<Rightarrow> error + Keyboard) \<Rightarrow> nat list \<Rightarrow> Keyboard \<Rightarrow> error + Keyboard" where
  "apply_in_order f [] kb = Inr kb"
| "apply_in_order f (k # ks) kb = and_then (f k kb) (apply_in_order f ks)"

subsection \<open>Audio reconfiguration of the renderer\<close>

text \<open>
  The audio fields of \<^verbatim>\<open>SDLRenderer\<close>. A method returns the renderer it leaves and what it
  did, in order: a command sent on the command channel of the emulation core (a
  close-all command is sent and its acknowledgement awaited before the method goes on) or a
  message printed. \<^verbatim>\<open>NewSDLAudio\<close> is declared outside the files at hand and is a parameter:
  it returns the new receiver or an error.
\<close>

datatype 'a core_cmd = Cmd_CloseAllAudioReceivers | Cmd_AddAudioReceiver 'a

datatype 'a effect = Send "'a core_cmd" | PrintfMsg string

fun sent :: "'a effect list \<Rightarrow> 'a core_cmd list" where
  "sent [] = []"
| "sent (Send c # es) = c # sent es"
| "sent (PrintfMsg msg # es) = sent es"

record SDLRenderer =
  audio :: bool
  audioFreq :: nat
  hqAudio :: bool

definition setAudioParameters ::
  "(nat \<Rightarrow> bool \<Rightarrow> string + 'a) \<Rightarrow> bool \<Rightarrow> bool \<Rightarrow> nat \<Rightarrow> SDLRenderer \<Rightarrow> SDLRenderer \<times> 'a effect list" where
  "setAudioParameters NewSDLAudio enable hq freq r =
     (let r' = r\<lparr>audio := enable, hqAudio := hq, audioFreq := freq\<rparr>;
          closed = [Send Cmd_CloseAllAudioReceivers]
      in if enable
         then (case NewSDLAudio freq hq of
                 Inr a \<Rightarrow>
                   (r', closed @ [Send Cmd_CloseAllAudioReceivers, Send (Cmd_AddAudioReceiver a)])
               | Inl err \<Rightarrow> (r', closed @ [PrintfMsg err]))
         else (r', closed))"

definition EnableAudio ::
  "(nat \<Rightarrow> bool \<Rightarrow> string + 'a) \<Rightarrow> bool \<Rightarrow> SDLRenderer \<Rightarrow> SDLRenderer \<times> 'a effect list" where
  "EnableAudio NewSDLAudio enable r = setAudioParameters NewSDLAudio enable (hqAudio r) (audioFreq r) r"

definition SetAudioFreq ::
  "(nat \<Rightarrow> bool \<Rightarrow> string + 'a) \<Rightarrow> nat \<Rightarrow> SDLRenderer \<Rightarrow> SDLRenderer \<times> 'a effect list" where
  "SetAudioFreq NewSDLAudio freq r =
     (if audioFreq r \<noteq> freq then setAudioParameters NewSDLAudio (audio r) (hqAudio r) freq r
      else (r, []))"

definition SetAudioQuality ::
  "(nat \<Rightarrow> bool \<Rightarrow> string + 'a) \<Rightarrow> bool \<Rightarrow> SDLRenderer \<Rightarrow> SDLRenderer \<times> 'a effect list" where
  "SetAudioQuality NewSDLAudio hq r =
     (if hqAudio r \<noteq> hq then setAudioParameters NewSDLAudio (audio r) hq (audioFreq r) r
      else (r, []))"

section \<open>Properties\<close>

subsection \<open>The key table and the matrix operations\<close>

lemma keyCodes_all_cells:
  "list_all (\<lambda>(k, c). unat (row c) < 8 \<and> kmask c \<in> {1, 2, 4, 8, 16}) keyCodes"
  unfolding keyCodes_def cell_def by simp

lemma keyCodes_lookup_cells:
  assumes "map_of keyCodes k = Some c"
  shows "unat (row c) < 8 \<and> kmask c \<in> {1, 2, 4, 8, 16}"
proof -
  from assms have "(k, c) \<in> set keyCodes" by (rule map_of_SomeD)
  with keyCodes_all_cells show ?thesis
    unfolding list_all_iff by blast
qed

lemma kmask_single_bit:
  assumes "map_of keyCodes k = Some c"
  shows "\<exists>b<5. kmask c = 2 ^ b"
proof -
  from keyCodes_lookup_cells [OF assms]
  consider "kmask c = 2 ^ 0" | "kmask c = 2 ^ 1" | "kmask c = 2 ^ 2" | "kmask c = 2 ^ 3" | "kmask c = 2 ^ 4"
    by auto
  then show ?thesis
  proof cases
    case 1 then show ?thesis by (intro exI [of _ 0]) simp
  next
    case 2 then show ?thesis by (intro exI [of _ 1]) simp
  next
    case 3 then show ?thesis by (intro exI [of _ 2]) simp
  next
    case 4 then show ?thesis by (intro exI [of _ 3]) simp
  next
    case 5 then show ?thesis by (intro exI [of _ 4]) simp
  qed
qed

lemma KeyDown_mapped:
  assumes "map_of keyCodes k = Some c"
  shows "KeyDown k kb =
    Inr (kb\<lparr>keyStates := (keyStates kb)[unat (row c) := (keyStates kb ! unat (row c)) AND NOT (kmask c)]\<rparr>)"
  using assms keyCodes_lookup_cells [OF assms] by (simp add: KeyDown_def Let_def)

lemma KeyUp_mapped:
  assumes "map_of keyCodes k = Some c"
  shows "KeyUp k kb =
    Inr (kb\<lparr>keyStates := (keyStates kb)[unat (row c) := (keyStates kb ! unat (row c)) OR (kmask c)]\<rparr>)"
  using assms keyCodes_lookup_cells [OF assms] by (simp add: KeyUp_def Let_def)

lemma KeyDown_unmapped: "map_of keyCodes k = None \<Longrightarrow> KeyDown k kb = Inr kb"
  by (simp add: KeyDown_def)

lemma KeyUp_unmapped: "map_of keyCodes k = None \<Longrightarrow> KeyUp k kb = Inr kb"
  by (simp add: KeyUp_def)

lemma reset_value:
  "reset kb = Inr (kb\<lparr>keyStates := (keyStates kb)[0 := 0xff, 1 := 0xff, 2 := 0xff, 3 := 0xff,
     4 := 0xff, 5 := 0xff, 6 := 0xff, 7 := 0xff]\<rparr>)"
  by (simp add: reset_def SetKeyState_def eval_nat_numeral)

lemma length8_cases:
  assumes "length (xs :: 'a list) = 8"
  obtains a b c d e f g h where "xs = [a, b, c, d, e, f, g, h]"
proof -
  from assms have "length xs = Suc (Suc (Suc (Suc (Suc (Suc (Suc (Suc 0)))))))" by simp
  then show ?thesis
    by (auto simp: length_Suc_conv intro: that)
qed

lemma reset_wf:
  assumes "wf_keyboard kb"
  shows "reset kb = Inr (kb\<lparr>keyStates := replicate 8 0xff\<rparr>)"
proof -
  from assms have "length (keyStates kb) = 8" by (simp add: wf_keyboard_def)
  then obtain a b c d e f g h where "keyStates kb = [a, b, c, d, e, f, g, h]"
    by (rule length8_cases)
  then show ?thesis
    by (simp add: reset_value eval_nat_numeral)
qed

lemma NewKeyboard_value: "NewKeyboard = Inr \<lparr>keyStates = replicate 8 0xff\<rparr>"
  by (simp add: NewKeyboard_def reset_wf wf_keyboard_def)

lemma replicate_8: "replicate 8 x = [x, x, x, x, x, x, x, x]"
  by (simp add: eval_nat_numeral)

lemma lookup_KEY_1: "map_of keyCodes KEY_1 = Some (cell 3 1)"
  by (simp add: keyCodes_def key_defs)

lemma and_then_Inr [simp]: "and_then (Inr x) f = f x"
  by (simp add: and_then_def)

lemma and_then_Inl [simp]: "and_then (Inl e) f = Inl e"
  by (simp add: and_then_def)

lemma byte_clear_set:
  fixes x m :: byte
  shows "(x AND NOT m) OR m = x OR m"
  by (rule bit_eqI) (auto simp: bit_simps)

lemma byte_or_absorb:
  fixes x :: byte
  assumes "x AND 2 ^ b \<noteq> 0"
  shows "x OR 2 ^ b = x"
proof -
  from assms have "bit x b"
    by (metis and_exp_eq_0_iff_not_bit)
  then show ?thesis
    by (intro bit_eqI) (auto simp: bit_simps)
qed

lemma byte_or_nonzero:
  fixes x :: byte
  assumes "b < 5"
  shows "(x OR 2 ^ b) AND 2 ^ b \<noteq> 0"
proof -
  from assms have "bit (x OR 2 ^ b) b" by (simp add: bit_simps)
  then show ?thesis 
    by (metis and_exp_eq_0_iff_not_bit)
qed

lemma filter_eq_singleton:
  assumes "distinct xs" "x \<in> set xs"
  shows "filter (\<lambda>y. y = x \<and> P) xs = (if P then [x] else [])"
  using assms
proof (induction xs)
  case Nil
  then show ?case by simp
next
  case (Cons a xs)
  show ?case
  proof (cases "a = x")
    case True
    with Cons.prems have "x \<notin> set xs" by simp
    then have "filter (\<lambda>y. y = x \<and> P) xs = []" and "filter (\<lambda>y. y = x) xs = []"
      by (auto simp: filter_empty_conv)
    with True show ?thesis by simp
  next
    case False
    with Cons show ?thesis by simp
  qed
qed

lemma changed_bits_single:
  assumes "r < 8" "b < 8"
    and "\<And>r' j. (bit (keyStates kb ! r') j \<noteq> bit (keyStates kb' ! r') j) = ((r', j) = (r, b) \<and> P)"
  shows "changed_bits kb kb' = (if P then [(r, b)] else [])"
proof -
  have "changed_bits kb kb' = filter (\<lambda>y. y = (r, b) \<and> P) (List.product [0..<8] [0..<8])"
    unfolding changed_bits_def using assms(3) by (intro filter_cong) auto
  also have "\<dots> = (if P then [(r, b)] else [])"
    using assms(1,2) by (intro filter_eq_singleton) (simp_all add: distinct_product)
  finally show ?thesis .
qed


text \<open>
  C9. After \<open>NewKeyboard\<close>, and after \<open>reset\<close> of any keyboard, each of the eight rows of the
  key matrix reads \<open>0xff\<close>: every key is released.
\<close>

theorem keyboard_starts_released:
  "(\<exists>kb. NewKeyboard = Inr kb \<and> (\<forall>r<8. GetKeyState r kb = Inr 0xff)) \<and>
   (wf_keyboard kb0 \<longrightarrow> (\<exists>kb. reset kb0 = Inr kb \<and> (\<forall>r<8. GetKeyState r kb = Inr 0xff)))"
  by (simp add: NewKeyboard_value reset_wf GetKeyState_def)

theorem keyboard_starts_released_witness:
  "wf_keyboard pressed_1 \<and>
   (\<exists>kb. reset pressed_1 = Inr kb \<and> (\<forall>r<8. GetKeyState r kb = Inr 0xff))"
  using keyboard_starts_released [of pressed_1]
  by (simp add: wf_keyboard_def pressed_1_def)

text \<open>
  C4, as stated: \<open>KeyDown k\<close> followed by \<open>KeyUp k\<close> restores the bit of \<open>k\<close> to its value
  before the \<open>KeyDown\<close>, whatever the matrix was. It fails when the key was already pressed:
  with key 1 pressed (row 3 reads \<open>0xfe\<close>), the two calls leave the key released.
\<close>

theorem KeyDown_KeyUp_pressed_counterexample:
  "and_then (KeyDown KEY_1 \<lparr>keyStates = [0xff, 0xff, 0xff, 0xfe, 0xff, 0xff, 0xff, 0xff]\<rparr>) (KeyUp KEY_1)
     = Inr \<lparr>keyStates = [0xff, 0xff, 0xff, 0xff, 0xff, 0xff, 0xff, 0xff]\<rparr> \<and>
   key_bit KEY_1 \<lparr>keyStates = [0xff, 0xff, 0xff, 0xfe, 0xff, 0xff, 0xff, 0xff]\<rparr> = Some False \<and>
   key_bit KEY_1 \<lparr>keyStates = [0xff, 0xff, 0xff, 0xff, 0xff, 0xff, 0xff, 0xff]\<rparr> = Some True"
  by code_simp

text \<open>
  C4, amended. For every logical key \<open>k\<close> and every matrix, \<open>KeyDown k\<close> followed by \<open>KeyUp k\<close>
  both succeed and leave the bit of \<open>k\<close> set (released); the bit has its value from before
  the \<open>KeyDown\<close> exactly when the key was not pressed then, and in that case the whole matrix
  is as before. For an unmapped \<open>k\<close> there is no bit and nothing changes.
\<close>

theorem KeyDown_KeyUp_bit:
  assumes "wf_keyboard kb"
  shows "\<exists>kb1 kb2. KeyDown k kb = Inr kb1 \<and> KeyUp k kb1 = Inr kb2 \<and>
           key_bit k kb2 = map_option (\<lambda>c. True) (map_of keyCodes k) \<and>
           (key_bit k kb2 = key_bit k kb \<longleftrightarrow> key_bit k kb \<noteq> Some False) \<and>
           (key_bit k kb \<noteq> Some False \<longrightarrow> kb2 = kb)"
proof (cases "map_of keyCodes k")
  case None
  then show ?thesis
    by (simp add: KeyDown_unmapped KeyUp_unmapped key_bit_def)
next
  case (Some c)
  from keyCodes_lookup_cells [OF Some] have r: "unat (row c) < 8" by simp
  from kmask_single_bit [OF Some] obtain b where b: "b < 5" "kmask c = 2 ^ b" by blast
  from assms r have len: "unat (row c) < length (keyStates kb)" by (simp add: wf_keyboard_def)
  let ?kb1 = "kb\<lparr>keyStates := (keyStates kb)[unat (row c) := (keyStates kb ! unat (row c)) AND NOT (kmask c)]\<rparr>"
  let ?kb2 = "kb\<lparr>keyStates := (keyStates kb)[unat (row c) := (keyStates kb ! unat (row c)) OR (kmask c)]\<rparr>"
  have d: "KeyDown k kb = Inr ?kb1" by (rule KeyDown_mapped [OF Some])
  have u: "KeyUp k ?kb1 = Inr ?kb2"
    using len by (simp add: KeyUp_mapped [OF Some] byte_clear_set)
  have after: "key_bit k ?kb2 = Some True"
    using len b by (simp add: key_bit_def Some byte_or_nonzero)
  have same: "?kb2 = kb" if "key_bit k kb \<noteq> Some False"
  proof -
    from that have "(keyStates kb ! unat (row c)) AND 2 ^ b \<noteq> 0"
      by (simp add: key_bit_def Some b)
    then have "(keyStates kb ! unat (row c)) OR kmask c = keyStates kb ! unat (row c)"
      unfolding b by (rule byte_or_absorb)
    then show ?thesis by simp
  qed
  have iff: "key_bit k ?kb2 = key_bit k kb \<longleftrightarrow> key_bit k kb \<noteq> Some False"
    using after by (auto simp: key_bit_def Some)
  from d u after iff same show ?thesis
    by (simp add: Some)
qed

theorem KeyDown_KeyUp_bit_witness:
  "wf_keyboard all_released \<and>
   (\<exists>kb1. KeyDown KEY_1 all_released = Inr kb1 \<and> KeyUp KEY_1 kb1 = Inr all_released)"
proof -
  have wf: "wf_keyboard all_released"
    by (simp add: wf_keyboard_def all_released_def)
  have "key_bit KEY_1 all_released \<noteq> Some False"
    by (simp add: key_bit_def lookup_KEY_1 cell_def all_released_def replicate_8)
  with KeyDown_KeyUp_bit [OF wf, of KEY_1] wf show ?thesis
    by auto
qed

text \<open>
  C6, as stated: every \<open>KeyDown\<close> of a mapped key flips exactly one bit of the matrix. It
  fails when the key is already pressed: \<open>KeyDown\<close> of key 1 on a matrix that shows key 1
  pressed returns the same matrix, and no bit has changed.
\<close>

theorem KeyDown_no_flip_counterexample:
  "KeyDown KEY_1 pressed_1 = Inr pressed_1 \<and> changed_bits pressed_1 pressed_1 = []"
  by code_simp

text \<open>
  C6, amended. The mask of every mapped key \<open>k\<close> is a single bit \<open>b\<close> of a row below 8.
  \<open>KeyDown k\<close> and \<open>KeyUp k\<close> succeed; the matrix after \<open>KeyDown k\<close> is the matrix before with
  the bit \<open>(row, b)\<close> cleared, the matrix after \<open>KeyUp k\<close> is the matrix before with that bit
  set, and every other bit of every row is unchanged. So at most one bit changes: exactly
  one when the bit had the other value, none when it already had the new one.
\<close>

theorem KeyDown_KeyUp_one_bit:
  assumes "wf_keyboard kb" and "map_of keyCodes k = Some c"
  shows "\<exists>b<8. kmask c = 2 ^ b \<and> unat (row c) < 8 \<and>
    (\<exists>kbd kbu. KeyDown k kb = Inr kbd \<and> KeyUp k kb = Inr kbu \<and>
      (\<forall>r j. bit (keyStates kbd ! r) j \<longleftrightarrow>
          bit (keyStates kb ! r) j \<and> (r, j) \<noteq> (unat (row c), b)) \<and>
      (\<forall>r j. bit (keyStates kbu ! r) j \<longleftrightarrow>
          bit (keyStates kb ! r) j \<or> (r, j) = (unat (row c), b)) \<and>
      changed_bits kb kbd =
        (if bit (keyStates kb ! unat (row c)) b then [(unat (row c), b)] else []) \<and>
      changed_bits kb kbu =
        (if bit (keyStates kb ! unat (row c)) b then [] else [(unat (row c), b)]))"
proof -
  let ?r = "unat (row c)"
  from keyCodes_lookup_cells [OF assms(2)] have r: "?r < 8" by simp
  from kmask_single_bit [OF assms(2)] obtain b where b: "b < 5" "kmask c = 2 ^ b" by blast
  from assms(1) r have len: "?r < length (keyStates kb)" by (simp add: wf_keyboard_def)
  let ?kbd = "kb\<lparr>keyStates := (keyStates kb)[?r := (keyStates kb ! ?r) AND NOT (kmask c)]\<rparr>"
  let ?kbu = "kb\<lparr>keyStates := (keyStates kb)[?r := (keyStates kb ! ?r) OR (kmask c)]\<rparr>"
  have d: "KeyDown k kb = Inr ?kbd" by (rule KeyDown_mapped [OF assms(2)])
  have u: "KeyUp k kb = Inr ?kbu" by (rule KeyUp_mapped [OF assms(2)])
  have bd: "bit (keyStates ?kbd ! r') j \<longleftrightarrow> bit (keyStates kb ! r') j \<and> (r', j) \<noteq> (?r, b)"
    for r' j
  proof (cases "r' = ?r")
    case True
    with len b show ?thesis by (auto simp: bit_simps dest: bit_imp_le_length)
  next
    case False
    then show ?thesis by simp
  qed
  have bu: "bit (keyStates ?kbu ! r') j \<longleftrightarrow> bit (keyStates kb ! r') j \<or> (r', j) = (?r, b)"
    for r' j
  proof (cases "r' = ?r")
    case True
    with len b show ?thesis by (auto simp: bit_simps)
  next
    case False
    then show ?thesis by simp
  qed
  have "(bit (keyStates kb ! r') j \<noteq> bit (keyStates ?kbd ! r') j) =
      ((r', j) = (?r, b) \<and> bit (keyStates kb ! ?r) b)" for r' j
    unfolding bd by auto
  with r b(1) have cd: "changed_bits kb ?kbd = (if bit (keyStates kb ! ?r) b then [(?r, b)] else [])"
    by (intro changed_bits_single) simp_all
  have "(bit (keyStates kb ! r') j \<noteq> bit (keyStates ?kbu ! r') j) =
      ((r', j) = (?r, b) \<and> \<not> bit (keyStates kb ! ?r) b)" for r' j
    unfolding bu by auto
  with r b(1) have "changed_bits kb ?kbu = (if \<not> bit (keyStates kb ! ?r) b then [(?r, b)] else [])"
    by (intro changed_bits_single) simp_all
  then have cu: "changed_bits kb ?kbu = (if bit (keyStates kb ! ?r) b then [] else [(?r, b)])"
    by simp
  from b(1) have "b < 8" by simp
  with b(2) r d u bd bu cd cu show ?thesis
    by blast
qed

theorem KeyDown_KeyUp_one_bit_witness:
  "wf_keyboard all_released \<and> map_of keyCodes KEY_1 = Some (cell 3 1) \<and>
   (\<exists>b<8. kmask (cell 3 1) = 2 ^ b \<and>
      (\<exists>kbd. KeyDown KEY_1 all_released = Inr kbd \<and>
         changed_bits all_released kbd =
           (if bit (keyStates all_released ! unat (row (cell 3 1))) b
            then [(unat (row (cell 3 1)), b)] else [])))"
proof -
  have wf: "wf_keyboard all_released"
    by (simp add: wf_keyboard_def all_released_def)
  from KeyDown_KeyUp_one_bit [OF wf lookup_KEY_1] wf lookup_KEY_1 show ?thesis
    by blast
qed

subsection \<open>Audio reconfiguration\<close>

lemma setAudioParameters_sent:
  "sent (snd (setAudioParameters NewSDLAudio enable hq freq r)) =
     (if enable
      then (case NewSDLAudio freq hq of
              Inr a \<Rightarrow> [Cmd_CloseAllAudioReceivers, Cmd_CloseAllAudioReceivers, Cmd_AddAudioReceiver a]
            | Inl err \<Rightarrow> [Cmd_CloseAllAudioReceivers])
      else [Cmd_CloseAllAudioReceivers])"
  by (simp add: setAudioParameters_def Let_def split: sum.split)

text \<open>
  C3, as stated: changing the frequency from 44100 to 22050 while audio is enabled sends
  exactly close-all, then register. It does not: with a receiver that can be built, the
  renderer sends close-all twice (before and after building the receiver) and then
  registers it.
\<close>

theorem SetAudioFreq_sends_two_closes_counterexample:
  "sent (snd (SetAudioFreq (\<lambda>freq hq. Inr (freq, hq)) 22050
            \<lparr>audio = True, audioFreq = 44100, hqAudio = True\<rparr>))
     = [Cmd_CloseAllAudioReceivers, Cmd_CloseAllAudioReceivers, Cmd_AddAudioReceiver (22050, True)] \<and>
   sent (snd (SetAudioFreq (\<lambda>freq hq. Inr (freq, hq)) 22050
            \<lparr>audio = True, audioFreq = 44100, hqAudio = True\<rparr>))
     \<noteq> [Cmd_CloseAllAudioReceivers, Cmd_AddAudioReceiver (22050, True)]"
  by (simp add: SetAudioFreq_def setAudioParameters_sent)

text \<open>
  C3, amended. When the frequency is changed while audio is enabled, the renderer takes the
  new frequency and the commands it sends to the emulation core are, in this order,
  close-all, close-all, register the new receiver, when the receiver for the new
  frequency can be built, and close-all alone when it cannot; in that case the error is
  printed after the close-all, and nothing else happens. A register command is never sent
  before a close-all.
\<close>

theorem SetAudioFreq_commands:
  assumes "audio r" and "audioFreq r \<noteq> freq"
  shows "audioFreq (fst (SetAudioFreq NewSDLAudio freq r)) = freq \<and>
         sent (snd (SetAudioFreq NewSDLAudio freq r)) =
           (case NewSDLAudio freq (hqAudio r) of
              Inr a \<Rightarrow> [Cmd_CloseAllAudioReceivers, Cmd_CloseAllAudioReceivers, Cmd_AddAudioReceiver a]
            | Inl err \<Rightarrow> [Cmd_CloseAllAudioReceivers]) \<and>
         snd (SetAudioFreq NewSDLAudio freq r) =
           (case NewSDLAudio freq (hqAudio r) of
              Inr a \<Rightarrow> [Send Cmd_CloseAllAudioReceivers, Send Cmd_CloseAllAudioReceivers,
                        Send (Cmd_AddAudioReceiver a)]
            | Inl err \<Rightarrow> [Send Cmd_CloseAllAudioReceivers, PrintfMsg err])"
proof -
  from assms(2) have "SetAudioFreq NewSDLAudio freq r =
      setAudioParameters NewSDLAudio (audio r) (hqAudio r) freq r"
    by (simp add: SetAudioFreq_def)
  moreover have "audioFreq (fst (setAudioParameters NewSDLAudio (audio r) (hqAudio r) freq r)) = freq"
    by (simp add: setAudioParameters_def Let_def split: sum.split)
  moreover have "snd (setAudioParameters NewSDLAudio True (hqAudio r) freq r) =
      (case NewSDLAudio freq (hqAudio r) of
         Inr a \<Rightarrow> [Send Cmd_CloseAllAudioReceivers, Send Cmd_CloseAllAudioReceivers,
                   Send (Cmd_AddAudioReceiver a)]
       | Inl err \<Rightarrow> [Send Cmd_CloseAllAudioReceivers, PrintfMsg err])"
    by (simp add: setAudioParameters_def Let_def split: sum.split)
  ultimately show ?thesis
    using assms(1) by (simp add: setAudioParameters_sent split: sum.split)
qed

theorem SetAudioFreq_commands_witness:
  "audio \<lparr>audio = True, audioFreq = 44100, hqAudio = True\<rparr> \<and>
   audioFreq \<lparr>audio = True, audioFreq = 44100, hqAudio = True\<rparr> \<noteq> 22050 \<and>
   sent (snd (SetAudioFreq (\<lambda>freq hq. Inl ''no device'' :: string + unit) 22050
            \<lparr>audio = True, audioFreq = 44100, hqAudio = True\<rparr>))
     = [Cmd_CloseAllAudioReceivers] \<and>
   snd (SetAudioFreq (\<lambda>freq hq. Inl ''no device'' :: string + unit) 22050
            \<lparr>audio = True, audioFreq = 44100, hqAudio = True\<rparr>)
     = [Send Cmd_CloseAllAudioReceivers, PrintfMsg ''no device'']"
  using SetAudioFreq_commands [of "\<lparr>audio = True, audioFreq = 44100, hqAudio = True\<rparr>" 22050
      "\<lambda>freq hq. Inl ''no device'' :: string + unit"]
  by simp

text \<open>
  C10. \<open>SetAudioFreq\<close> with the configured frequency and \<open>SetAudioQuality\<close> with the
  configured quality flag send nothing, print nothing, and return the renderer as it was.
\<close>

theorem same_audio_setting_is_noop:
  "SetAudioFreq NewSDLAudio (audioFreq r) r = (r, []) \<and>
   SetAudioQuality NewSDLAudio (hqAudio r) r = (r, [])"
  by (simp add: SetAudioFreq_def SetAudioQuality_def)

subsection \<open>Joystick events\<close>

lemma Diff_two_singletons: "A - {a} - {b} = A - {a, b}"
  by blast

text \<open>
  C8. An axis event of axis 0 or 1 only touches the joystick: a positive value sets the
  positive-direction bit of the axis (right, up), a negative value sets its
  negative-direction bit (left, down), and the value 0 clears both bits of the axis; an
  event of any other axis changes nothing. A button event of button 0 sets the fire bit
  when the state is not 0 and clears it when it is 0; other buttons change nothing.
\<close>

theorem joystick_events:
  "sdlEventLoop (JoyAxisEvent 0 v) m =
     Inr (m\<lparr>joystick :=
            (if 0 < sint v then insert KEMPSTON_RIGHT (joystick m)
             else if sint v < 0 then insert KEMPSTON_LEFT (joystick m)
             else joystick m - {KEMPSTON_RIGHT, KEMPSTON_LEFT})\<rparr>) \<and>
   sdlEventLoop (JoyAxisEvent 1 v) m =
     Inr (m\<lparr>joystick :=
            (if 0 < sint v then insert KEMPSTON_UP (joystick m)
             else if sint v < 0 then insert KEMPSTON_DOWN (joystick m)
             else joystick m - {KEMPSTON_UP, KEMPSTON_DOWN})\<rparr>) \<and>
   (axis \<noteq> 0 \<and> axis \<noteq> 1 \<longrightarrow> sdlEventLoop (JoyAxisEvent axis v) m = Inr m) \<and>
   sdlEventLoop (JoyButtonEvent 0 st) m =
     Inr (m\<lparr>joystick :=
            (if st \<noteq> 0 then insert KEMPSTON_FIRE (joystick m)
             else joystick m - {KEMPSTON_FIRE})\<rparr>) \<and>
   (button \<noteq> 0 \<longrightarrow> sdlEventLoop (JoyButtonEvent button st) m = Inr m)"
  by (auto simp: joyAxis_def joyButton_def KempstonDown_def KempstonUp_def word_greater_zero_iff
      Diff_two_singletons)

theorem joystick_events_witness:
  "sdlEventLoop (JoyAxisEvent 0 (- 300)) \<lparr>keyboard = all_released, joystick = {KEMPSTON_FIRE}, exitRequested = False, keyCalls = []\<rparr>
     = Inr \<lparr>keyboard = all_released, joystick = {KEMPSTON_LEFT, KEMPSTON_FIRE}, exitRequested = False, keyCalls = []\<rparr> \<and>
   sdlEventLoop (JoyAxisEvent 0 0) \<lparr>keyboard = all_released, joystick = {KEMPSTON_LEFT, KEMPSTON_FIRE}, exitRequested = False, keyCalls = []\<rparr>
     = Inr \<lparr>keyboard = all_released, joystick = {KEMPSTON_FIRE}, exitRequested = False, keyCalls = []\<rparr> \<and>
   (2 :: byte) \<noteq> 0 \<and> (2 :: byte) \<noteq> 1 \<and>
   sdlEventLoop (JoyAxisEvent 2 7) \<lparr>keyboard = all_released, joystick = {KEMPSTON_FIRE}, exitRequested = False, keyCalls = []\<rparr>
     = Inr \<lparr>keyboard = all_released, joystick = {KEMPSTON_FIRE}, exitRequested = False, keyCalls = []\<rparr>"
  using joystick_events [of "- 300" "\<lparr>keyboard = all_released, joystick = {KEMPSTON_FIRE}, exitRequested = False, keyCalls = []\<rparr>" 2 0 0]
    joystick_events [of 0 "\<lparr>keyboard = all_released, joystick = {KEMPSTON_LEFT, KEMPSTON_FIRE}, exitRequested = False, keyCalls = []\<rparr>" 2 0 0]
    joystick_events [of 7 "\<lparr>keyboard = all_released, joystick = {KEMPSTON_FIRE}, exitRequested = False, keyCalls = []\<rparr>" 2 0 0]
  by auto

subsection \<open>Key sequences\<close>

lemma find_single_bit:
  assumes "b < 5"
  shows "find (\<lambda>j. (2 :: byte) ^ b = 2 ^ j) [0..<8] = Some b"
proof -
  from assms consider "b = 0" | "b = 1" | "b = 2" | "b = 3" | "b = 4" by linarith
  then show ?thesis
    by cases (simp_all add: upt_rec)
qed

lemma key_pos_mapped:
  assumes "map_of keyCodes k = Some c"
  shows "\<exists>b<5. kmask c = 2 ^ b \<and> unat (row c) < 8 \<and> key_pos k = Some (unat (row c), b)"
proof -
  from kmask_single_bit [OF assms] obtain b where b: "b < 5" "kmask c = 2 ^ b" by blast
  from keyCodes_lookup_cells [OF assms] have "unat (row c) < 8" by simp
  with b assms show ?thesis
    by (auto simp: key_pos_def find_single_bit)
qed

lemma key_pos_unmapped: "map_of keyCodes k = None \<Longrightarrow> key_pos k = None"
  by (simp add: key_pos_def)

lemma key_bit_pos:
  "key_bit k kb = map_option (\<lambda>(r, j). bit (keyStates kb ! r) j) (key_pos k)"
proof (cases "map_of keyCodes k")
  case None
  then show ?thesis by (simp add: key_bit_def key_pos_def)
next
  case (Some c)
  from key_pos_mapped [OF Some] obtain b
    where "kmask c = 2 ^ b" "key_pos k = Some (unat (row c), b)" by blast
  with Some show ?thesis
    by (simp add: key_bit_def and_exp_eq_0_iff_not_bit)
qed

lemma KeyDown_bits:
  assumes "wf_keyboard kb"
  shows "\<exists>kb'. KeyDown k kb = Inr kb' \<and> wf_keyboard kb' \<and>
    (\<forall>r j. bit (keyStates kb' ! r) j \<longleftrightarrow> bit (keyStates kb ! r) j \<and> key_pos k \<noteq> Some (r, j))"
proof (cases "map_of keyCodes k")
  case None
  with assms show ?thesis
    by (simp add: KeyDown_unmapped key_pos_unmapped)
next
  case (Some c)
  let ?r = "unat (row c)"
  from key_pos_mapped [OF Some] obtain b
    where b: "b < 5" "kmask c = 2 ^ b" "?r < 8" "key_pos k = Some (?r, b)" by blast
  from assms b(3) have len: "?r < length (keyStates kb)" by (simp add: wf_keyboard_def)
  let ?kb' = "kb\<lparr>keyStates := (keyStates kb)[?r := (keyStates kb ! ?r) AND NOT (kmask c)]\<rparr>"
  have "bit (keyStates ?kb' ! r) j \<longleftrightarrow> bit (keyStates kb ! r) j \<and> key_pos k \<noteq> Some (r, j)" for r j
  proof (cases "r = ?r")
    case True
    with len b show ?thesis by (auto simp: bit_simps dest: bit_imp_le_length)
  next
    case False
    with b(4) show ?thesis by simp
  qed
  moreover have "wf_keyboard ?kb'" using assms by (simp add: wf_keyboard_def)
  moreover have "KeyDown k kb = Inr ?kb'" by (rule KeyDown_mapped [OF Some])
  ultimately show ?thesis by blast
qed

lemma KeyUp_bits:
  assumes "wf_keyboard kb"
  shows "\<exists>kb'. KeyUp k kb = Inr kb' \<and> wf_keyboard kb' \<and>
    (\<forall>r j. bit (keyStates kb' ! r) j \<longleftrightarrow> bit (keyStates kb ! r) j \<or> key_pos k = Some (r, j))"
proof (cases "map_of keyCodes k")
  case None
  with assms show ?thesis
    by (simp add: KeyUp_unmapped key_pos_unmapped)
next
  case (Some c)
  let ?r = "unat (row c)"
  from key_pos_mapped [OF Some] obtain b
    where b: "b < 5" "kmask c = 2 ^ b" "?r < 8" "key_pos k = Some (?r, b)" by blast
  from assms b(3) have len: "?r < length (keyStates kb)" by (simp add: wf_keyboard_def)
  let ?kb' = "kb\<lparr>keyStates := (keyStates kb)[?r := (keyStates kb ! ?r) OR (kmask c)]\<rparr>"
  have "bit (keyStates ?kb' ! r) j \<longleftrightarrow> bit (keyStates kb ! r) j \<or> key_pos k = Some (r, j)" for r j
  proof (cases "r = ?r")
    case True
    with len b show ?thesis by (auto simp: bit_simps)
  next
    case False
    with b(4) show ?thesis by simp
  qed
  moreover have "wf_keyboard ?kb'" using assms by (simp add: wf_keyboard_def)
  moreover have "KeyUp k kb = Inr ?kb'" by (rule KeyUp_mapped [OF Some])
  ultimately show ?thesis by blast
qed

lemma apply_KeyDown_bits:
  assumes "wf_keyboard kb"
  shows "\<exists>kb'. apply_in_order KeyDown ks kb = Inr kb' \<and> wf_keyboard kb' \<and>
    (\<forall>r j. bit (keyStates kb' ! r) j \<longleftrightarrow>
       bit (keyStates kb ! r) j \<and> (\<forall>k\<in>set ks. key_pos k \<noteq> Some (r, j)))"
  using assms
proof (induction ks arbitrary: kb)
  case Nil
  then show ?case by simp
next
  case (Cons k ks)
  from KeyDown_bits [OF Cons.prems, of k] obtain kb1
    where 1: "KeyDown k kb = Inr kb1" "wf_keyboard kb1"
      "\<And>r j. bit (keyStates kb1 ! r) j \<longleftrightarrow> bit (keyStates kb ! r) j \<and> key_pos k \<noteq> Some (r, j)"
    by blast
  from Cons.IH [OF 1(2)] obtain kb2
    where 2: "apply_in_order KeyDown ks kb1 = Inr kb2" "wf_keyboard kb2"
      "\<And>r j. bit (keyStates kb2 ! r) j \<longleftrightarrow>
         bit (keyStates kb1 ! r) j \<and> (\<forall>k\<in>set ks. key_pos k \<noteq> Some (r, j))"
    by blast
  have "apply_in_order KeyDown (k # ks) kb = Inr kb2"
    using 1(1) 2(1) by simp
  moreover have "bit (keyStates kb2 ! r) j \<longleftrightarrow>
      bit (keyStates kb ! r) j \<and> (\<forall>k'\<in>set (k # ks). key_pos k' \<noteq> Some (r, j))" for r j
    unfolding 2(3) 1(3) by auto
  ultimately show ?case using 2(2) by blast
qed

lemma apply_KeyUp_bits:
  assumes "wf_keyboard kb"
  shows "\<exists>kb'. apply_in_order KeyUp ks kb = Inr kb' \<and> wf_keyboard kb' \<and>
    (\<forall>r j. bit (keyStates kb' ! r) j \<longleftrightarrow>
       bit (keyStates kb ! r) j \<or> (\<exists>k\<in>set ks. key_pos k = Some (r, j)))"
  using assms
proof (induction ks arbitrary: kb)
  case Nil
  then show ?case by simp
next
  case (Cons k ks)
  from KeyUp_bits [OF Cons.prems, of k] obtain kb1
    where 1: "KeyUp k kb = Inr kb1" "wf_keyboard kb1"
      "\<And>r j. bit (keyStates kb1 ! r) j \<longleftrightarrow> bit (keyStates kb ! r) j \<or> key_pos k = Some (r, j)"
    by blast
  from Cons.IH [OF 1(2)] obtain kb2
    where 2: "apply_in_order KeyUp ks kb1 = Inr kb2" "wf_keyboard kb2"
      "\<And>r j. bit (keyStates kb2 ! r) j \<longleftrightarrow>
         bit (keyStates kb1 ! r) j \<or> (\<exists>k\<in>set ks. key_pos k = Some (r, j))"
    by blast
  have "apply_in_order KeyUp (k # ks) kb = Inr kb2"
    using 1(1) 2(1) by simp
  moreover have "bit (keyStates kb2 ! r) j \<longleftrightarrow>
      bit (keyStates kb ! r) j \<or> (\<exists>k'\<in>set (k # ks). key_pos k' = Some (r, j))" for r j
    unfolding 2(3) 1(3) by auto
  ultimately show ?case using 2(2) by blast
qed

lemma pressFrom_log:
  "pressFrom sequence i m =
     and_then (apply_in_order KeyDown (drop i sequence) (keyboard m))
       (\<lambda>kb. Inr (m\<lparr>keyboard := kb, keyCalls := keyCalls m @ map OpKeyDown (drop i sequence)\<rparr>))"
proof (induction sequence i m rule: pressFrom.induct)
  case (1 sequence i m)
  show ?case
  proof (cases "i < length sequence")
    case True
    then have d: "drop i sequence = sequence ! i # drop (i + 1) sequence"
      by (simp add: Cons_nth_drop_Suc)
    show ?thesis
    proof (cases "KeyDown (sequence ! i) (keyboard m)")
      case (Inl e)
      with True show ?thesis
        unfolding d by (simp add: pressFrom.simps [of sequence i m] callKeyDown_def)
    next
      case (Inr kb')
      let ?m' = "m\<lparr>keyboard := kb', keyCalls := keyCalls m @ [OpKeyDown (sequence ! i)]\<rparr>"
      from Inr have c: "callKeyDown (sequence ! i) m = Inr ?m'"
        by (simp add: callKeyDown_def)
      from True c have "pressFrom sequence i m = pressFrom sequence (i + 1) ?m'"
        by (simp add: pressFrom.simps [of sequence i m])
      also note "1.IH" [OF True c]
      finally show ?thesis
        unfolding d using Inr by simp
    qed
  next
    case False
    then show ?thesis by (simp add: pressFrom.simps [of sequence i m])
  qed
qed

lemma releaseFrom_log:
  "n \<le> length sequence \<Longrightarrow>
     releaseFrom sequence n m =
       and_then (apply_in_order KeyUp (rev (take n sequence)) (keyboard m))
         (\<lambda>kb. Inr (m\<lparr>keyboard := kb, keyCalls := keyCalls m @ map OpKeyUp (rev (take n sequence))\<rparr>))"
proof (induction n arbitrary: m)
  case 0
  then show ?case by simp
next
  case (Suc n)
  then have t: "rev (take (Suc n) sequence) = sequence ! n # rev (take n sequence)"
    by (simp add: take_Suc_conv_app_nth)
  show ?case
  proof (cases "KeyUp (sequence ! n) (keyboard m)")
    case (Inl e)
    then show ?thesis
      unfolding t by (simp add: callKeyUp_def)
  next
    case (Inr kb')
    let ?m' = "m\<lparr>keyboard := kb', keyCalls := keyCalls m @ [OpKeyUp (sequence ! n)]\<rparr>"
    from Inr have c: "callKeyUp (sequence ! n) m = Inr ?m'"
      by (simp add: callKeyUp_def)
    from Suc.prems have "n \<le> length sequence" by simp
    from Suc.IH [OF this, of ?m'] c Inr show ?thesis
      unfolding t by simp
  qed
qed

lemma keyboard_eqI:
  assumes "wf_keyboard kb" "wf_keyboard kb'"
    and "\<And>r j. bit (keyStates kb' ! r) j \<longleftrightarrow> bit (keyStates kb ! r) j"
  shows "kb' = kb"
proof -
  have "keyStates kb' = keyStates kb"
    using assms by (intro nth_equalityI bit_eqI) (simp_all add: wf_keyboard_def)
  then show ?thesis by simp
qed

lemma escape_unmapped: "map_of SDL_KeyMap ''escape'' = None"
  by (simp add: SDL_KeyMap_def)

lemma keyEvent_down:
  assumes "map_of SDL_KeyMap keyName = Some sequence"
  shows "sdlEventLoop (KeyboardEvent keyName KEYDOWN) m =
     and_then (apply_in_order KeyDown sequence (keyboard m))
       (\<lambda>kb. Inr (m\<lparr>keyboard := kb, keyCalls := keyCalls m @ map OpKeyDown sequence\<rparr>))"
proof -
  from assms escape_unmapped have "keyName \<noteq> ''escape''" by auto
  with assms show ?thesis by (simp add: keyEvent_def pressFrom_log)
qed

lemma keyEvent_up:
  assumes "map_of SDL_KeyMap keyName = Some sequence"
  shows "sdlEventLoop (KeyboardEvent keyName KEYUP) m =
     and_then (apply_in_order KeyUp (rev sequence) (keyboard m))
       (\<lambda>kb. Inr (m\<lparr>keyboard := kb, keyCalls := keyCalls m @ map OpKeyUp (rev sequence)\<rparr>))"
  using assms by (simp add: keyEvent_def releaseFrom_log)

lemma keyEvent_unmapped:
  assumes "map_of SDL_KeyMap keyName = None"
  shows "\<exists>m'. sdlEventLoop (KeyboardEvent keyName ty) m = Inr m' \<and> keyboard m' = keyboard m \<and>
           keyCalls m' = keyCalls m"
  using assms by (simp add: keyEvent_def)

text \<open>
  C5, as stated: after a key-down and a key-up event of a mapped key name the matrix is
  what it was before. It is not when a key of the sequence was already pressed: with Caps
  Shift held (row 0 reads \<open>0xfe\<close>), pressing and releasing the left arrow, mapped to Caps
  Shift and 5, leaves Caps Shift released. The calls made are Caps Shift down, 5 down,
  5 up, Caps Shift up.
\<close>

theorem key_cycle_pressed_counterexample:
  "and_then (sdlEventLoop (KeyboardEvent ''left'' KEYDOWN)
       \<lparr>keyboard = \<lparr>keyStates = [0xfe, 0xff, 0xff, 0xff, 0xff, 0xff, 0xff, 0xff]\<rparr>,
        joystick = {}, exitRequested = False, keyCalls = []\<rparr>)
     (sdlEventLoop (KeyboardEvent ''left'' KEYUP))
   = Inr \<lparr>keyboard = \<lparr>keyStates = [0xff, 0xff, 0xff, 0xff, 0xff, 0xff, 0xff, 0xff]\<rparr>,
          joystick = {}, exitRequested = False,
          keyCalls = [OpKeyDown KEY_CapsShift, OpKeyDown KEY_5, OpKeyUp KEY_5, OpKeyUp KEY_CapsShift]\<rparr>"
  by (simp add: keyEvent_def SDL_KeyMap_def pressFrom.simps callKeyDown_def callKeyUp_def
      KeyDown_def KeyUp_def keyCodes_def cell_def key_defs)

text \<open>
  C5, amended. For a key name mapped to the sequence \<open>k1..kn\<close>, a key-down event calls
  \<open>KeyDown\<close> on \<open>k1..kn\<close>, in the listed order and nothing else, and a key-up event calls
  \<open>KeyUp\<close> on \<open>kn..k1\<close>, in that order and nothing else; the matrix after the event is the
  result of those calls. After a key-down event followed by a key-up event, both of which
  succeed, every key of the sequence is released and every other bit of the matrix is as
  before: the matrix equals its initial state exactly when no key of the sequence was
  pressed initially. An event whose key name is not in the table makes no call and leaves
  the matrix unchanged.
\<close>

theorem key_event_sequence:
  "(map_of SDL_KeyMap keyName = Some sequence \<longrightarrow>
      sdlEventLoop (KeyboardEvent keyName KEYDOWN) m =
        and_then (apply_in_order KeyDown sequence (keyboard m))
          (\<lambda>kb. Inr (m\<lparr>keyboard := kb, keyCalls := keyCalls m @ map OpKeyDown sequence\<rparr>)) \<and>
      sdlEventLoop (KeyboardEvent keyName KEYUP) m =
        and_then (apply_in_order KeyUp (rev sequence) (keyboard m))
          (\<lambda>kb. Inr (m\<lparr>keyboard := kb, keyCalls := keyCalls m @ map OpKeyUp (rev sequence)\<rparr>)) \<and>
      (wf_keyboard (keyboard m) \<longrightarrow>
        (\<exists>m1 m2. sdlEventLoop (KeyboardEvent keyName KEYDOWN) m = Inr m1 \<and>
           keyCalls m1 = keyCalls m @ map OpKeyDown sequence \<and>
           sdlEventLoop (KeyboardEvent keyName KEYUP) m1 = Inr m2 \<and>
           keyCalls m2 = keyCalls m1 @ map OpKeyUp (rev sequence) \<and>
           (\<forall>r j. bit (keyStates (keyboard m2) ! r) j \<longleftrightarrow>
              bit (keyStates (keyboard m) ! r) j \<or> (\<exists>k\<in>set sequence. key_pos k = Some (r, j))) \<and>
           (\<forall>k\<in>set sequence. key_bit k (keyboard m2) \<noteq> Some False) \<and>
           (keyboard m2 = keyboard m \<longleftrightarrow> (\<forall>k\<in>set sequence. key_bit k (keyboard m) \<noteq> Some False))))) \<and>
   (map_of SDL_KeyMap keyName = None \<longrightarrow>
      (\<exists>m'. sdlEventLoop (KeyboardEvent keyName ty) m = Inr m' \<and> keyboard m' = keyboard m \<and>
         keyCalls m' = keyCalls m))"
proof (intro conjI impI)
  assume mapped: "map_of SDL_KeyMap keyName = Some sequence"
  show "sdlEventLoop (KeyboardEvent keyName KEYDOWN) m =
      and_then (apply_in_order KeyDown sequence (keyboard m))
        (\<lambda>kb. Inr (m\<lparr>keyboard := kb, keyCalls := keyCalls m @ map OpKeyDown sequence\<rparr>))"
    by (rule keyEvent_down [OF mapped])
  show "sdlEventLoop (KeyboardEvent keyName KEYUP) m =
      and_then (apply_in_order KeyUp (rev sequence) (keyboard m))
        (\<lambda>kb. Inr (m\<lparr>keyboard := kb, keyCalls := keyCalls m @ map OpKeyUp (rev sequence)\<rparr>))"
    by (rule keyEvent_up [OF mapped])
  assume wf: "wf_keyboard (keyboard m)"
  from apply_KeyDown_bits [OF wf, of sequence] obtain kb1
    where 1: "apply_in_order KeyDown sequence (keyboard m) = Inr kb1" "wf_keyboard kb1"
      "\<And>r j. bit (keyStates kb1 ! r) j \<longleftrightarrow>
         bit (keyStates (keyboard m) ! r) j \<and> (\<forall>k\<in>set sequence. key_pos k \<noteq> Some (r, j))"
    by blast
  from apply_KeyUp_bits [OF 1(2), of "rev sequence"] obtain kb2
    where 2: "apply_in_order KeyUp (rev sequence) kb1 = Inr kb2" "wf_keyboard kb2"
      "\<And>r j. bit (keyStates kb2 ! r) j \<longleftrightarrow>
         bit (keyStates kb1 ! r) j \<or> (\<exists>k\<in>set sequence. key_pos k = Some (r, j))"
    by auto
  let ?m1 = "m\<lparr>keyboard := kb1, keyCalls := keyCalls m @ map OpKeyDown sequence\<rparr>"
  let ?m2 = "?m1\<lparr>keyboard := kb2, keyCalls := keyCalls ?m1 @ map OpKeyUp (rev sequence)\<rparr>"
  have s1: "sdlEventLoop (KeyboardEvent keyName KEYDOWN) m = Inr ?m1"
    unfolding keyEvent_down [OF mapped] 1(1) by simp
  have s2: "sdlEventLoop (KeyboardEvent keyName KEYUP) ?m1 = Inr ?m2"
    unfolding keyEvent_up [OF mapped] using 2(1) by simp
  have c1: "keyCalls ?m1 = keyCalls m @ map OpKeyDown sequence" by simp
  have c2: "keyCalls ?m2 = keyCalls ?m1 @ map OpKeyUp (rev sequence)" by simp
  have kb2: "keyboard ?m2 = kb2" by simp
  have bits: "bit (keyStates (keyboard ?m2) ! r) j \<longleftrightarrow>
      bit (keyStates (keyboard m) ! r) j \<or> (\<exists>k\<in>set sequence. key_pos k = Some (r, j))" for r j
    unfolding kb2 using 2(3) [of r j] 1(3) [of r j] by auto
  have released: "\<forall>k\<in>set sequence. key_bit k (keyboard ?m2) \<noteq> Some False"
  proof
    fix k assume k: "k \<in> set sequence"
    show "key_bit k (keyboard ?m2) \<noteq> Some False"
    proof (cases "key_pos k")
      case None
      then show ?thesis by (simp add: key_bit_pos)
    next
      case (Some p)
      obtain r j where "p = (r, j)" by (cases p)
      with Some k bits [of r j] show ?thesis
        unfolding kb2 by (auto simp: key_bit_pos)
    qed
  qed
  have same: "keyboard ?m2 = keyboard m \<longleftrightarrow> (\<forall>k\<in>set sequence. key_bit k (keyboard m) \<noteq> Some False)"
  proof
    assume "keyboard ?m2 = keyboard m"
    with released show "\<forall>k\<in>set sequence. key_bit k (keyboard m) \<noteq> Some False" by simp
  next
    assume init: "\<forall>k\<in>set sequence. key_bit k (keyboard m) \<noteq> Some False"
    have "bit (keyStates kb2 ! r) j \<longleftrightarrow> bit (keyStates (keyboard m) ! r) j" for r j
    proof -
      have "bit (keyStates (keyboard m) ! r) j" if "k \<in> set sequence" "key_pos k = Some (r, j)" for k
        using init that by (auto simp: key_bit_pos)
      with bits [of r j] show ?thesis unfolding kb2 by auto
    qed
    with wf 2(2) have "kb2 = keyboard m" by (intro keyboard_eqI)
    then show "keyboard ?m2 = keyboard m" by simp
  qed
  from s1 c1 s2 c2 bits released same
  show "\<exists>m1 m2. sdlEventLoop (KeyboardEvent keyName KEYDOWN) m = Inr m1 \<and>
           keyCalls m1 = keyCalls m @ map OpKeyDown sequence \<and>
           sdlEventLoop (KeyboardEvent keyName KEYUP) m1 = Inr m2 \<and>
           keyCalls m2 = keyCalls m1 @ map OpKeyUp (rev sequence) \<and>
           (\<forall>r j. bit (keyStates (keyboard m2) ! r) j \<longleftrightarrow>
              bit (keyStates (keyboard m) ! r) j \<or> (\<exists>k\<in>set sequence. key_pos k = Some (r, j))) \<and>
           (\<forall>k\<in>set sequence. key_bit k (keyboard m2) \<noteq> Some False) \<and>
           (keyboard m2 = keyboard m \<longleftrightarrow> (\<forall>k\<in>set sequence. key_bit k (keyboard m) \<noteq> Some False))"
    by blast
next
  assume "map_of SDL_KeyMap keyName = None"
  then show "\<exists>m'. sdlEventLoop (KeyboardEvent keyName ty) m = Inr m' \<and> keyboard m' = keyboard m \<and>
      keyCalls m' = keyCalls m"
    by (rule keyEvent_unmapped)
qed

theorem key_event_sequence_witness:
  "map_of SDL_KeyMap ''left'' = Some [KEY_CapsShift, KEY_5] \<and>
   wf_keyboard (keyboard \<lparr>keyboard = all_released, joystick = {}, exitRequested = False, keyCalls = []\<rparr>) \<and>
   (\<exists>m1 m2. sdlEventLoop (KeyboardEvent ''left'' KEYDOWN)
            \<lparr>keyboard = all_released, joystick = {}, exitRequested = False, keyCalls = []\<rparr> = Inr m1 \<and>
         keyCalls m1 = [OpKeyDown KEY_CapsShift, OpKeyDown KEY_5] \<and>
         sdlEventLoop (KeyboardEvent ''left'' KEYUP) m1 = Inr m2 \<and>
         keyCalls m2 = [OpKeyDown KEY_CapsShift, OpKeyDown KEY_5, OpKeyUp KEY_5, OpKeyUp KEY_CapsShift] \<and>
         keyboard m2 = all_released) \<and>
   map_of SDL_KeyMap ''f1'' = None \<and>
   (\<exists>m'. sdlEventLoop (KeyboardEvent ''f1'' KEYDOWN)
            \<lparr>keyboard = all_released, joystick = {}, exitRequested = False, keyCalls = []\<rparr> = Inr m' \<and>
         keyboard m' = all_released \<and> keyCalls m' = [])"
proof -
  let ?m = "\<lparr>keyboard = all_released, joystick = {}, exitRequested = False, keyCalls = []\<rparr>"
  have mapped: "map_of SDL_KeyMap ''left'' = Some [KEY_CapsShift, KEY_5]"
    by (simp add: SDL_KeyMap_def)
  have unmapped: "map_of SDL_KeyMap ''f1'' = None"
    by (simp add: SDL_KeyMap_def)
  have wf: "wf_keyboard (keyboard ?m)"
    by (simp add: wf_keyboard_def all_released_def)
  have "key_bit KEY_CapsShift all_released = Some True" "key_bit KEY_5 all_released = Some True"
    by code_simp+
  then have free: "\<forall>k\<in>set [KEY_CapsShift, KEY_5]. key_bit k (keyboard ?m) \<noteq> Some False"
    by simp
  from key_event_sequence [of "''left''" "[KEY_CapsShift, KEY_5]" ?m KEYDOWN] mapped wf free
  obtain m1 m2 where
    "sdlEventLoop (KeyboardEvent ''left'' KEYDOWN) ?m = Inr m1"
    "keyCalls m1 = keyCalls ?m @ map OpKeyDown [KEY_CapsShift, KEY_5]"
    "sdlEventLoop (KeyboardEvent ''left'' KEYUP) m1 = Inr m2"
    "keyCalls m2 = keyCalls m1 @ map OpKeyUp (rev [KEY_CapsShift, KEY_5])"
    "keyboard m2 = keyboard ?m"
    by blast
  then have "\<exists>m1 m2. sdlEventLoop (KeyboardEvent ''left'' KEYDOWN) ?m = Inr m1 \<and>
         keyCalls m1 = [OpKeyDown KEY_CapsShift, OpKeyDown KEY_5] \<and>
         sdlEventLoop (KeyboardEvent ''left'' KEYUP) m1 = Inr m2 \<and>
         keyCalls m2 = [OpKeyDown KEY_CapsShift, OpKeyDown KEY_5, OpKeyUp KEY_5, OpKeyUp KEY_CapsShift] \<and>
         keyboard m2 = all_released"
    by (intro exI [of _ m1] exI [of _ m2]) simp
  moreover from key_event_sequence [of "''f1''" "[]" ?m KEYDOWN] unmapped
  have "\<exists>m'. sdlEventLoop (KeyboardEvent ''f1'' KEYDOWN) ?m = Inr m' \<and> keyboard m' = all_released \<and>
      keyCalls m' = []"
    by simp
  ultimately show ?thesis using mapped unmapped wf by blast
qed

subsection \<open>The load macro\<close>

lemma load_macro_run:
  "exec_ops
     [OpKeyDown KEY_J, OpDelayAfterKeyDown, OpKeyUp KEY_J, OpDelayAfterKeyUp,
      OpKeyDown KEY_SymbolShift,
      OpKeyDown KEY_P, OpDelayAfterKeyDown, OpKeyUp KEY_P, OpDelayAfterKeyUp,
      OpKeyDown KEY_P, OpDelayAfterKeyDown, OpKeyUp KEY_P, OpDelayAfterKeyUp,
      OpKeyUp KEY_SymbolShift,
      OpKeyDown KEY_Enter, OpDelayAfterKeyDown, OpKeyUp KEY_Enter] all_released
   = Inr (all_released,
      [\<lparr>keyStates = [255, 255, 255, 255, 255, 255, 247, 255]\<rparr>,
       \<lparr>keyStates = [255, 255, 255, 255, 255, 255, 255, 255]\<rparr>,
       \<lparr>keyStates = [255, 255, 255, 255, 255, 254, 255, 253]\<rparr>,
       \<lparr>keyStates = [255, 255, 255, 255, 255, 255, 255, 253]\<rparr>,
       \<lparr>keyStates = [255, 255, 255, 255, 255, 254, 255, 253]\<rparr>,
       \<lparr>keyStates = [255, 255, 255, 255, 255, 255, 255, 253]\<rparr>,
       \<lparr>keyStates = [255, 255, 255, 255, 255, 255, 254, 255]\<rparr>])"
  by code_simp

lemma load_macro_pressed:
  "map pressed_keys
      [\<lparr>keyStates = [255, 255, 255, 255, 255, 255, 247, 255]\<rparr>,
       \<lparr>keyStates = [255, 255, 255, 255, 255, 255, 255, 255]\<rparr>,
       \<lparr>keyStates = [255, 255, 255, 255, 255, 254, 255, 253]\<rparr>,
       \<lparr>keyStates = [255, 255, 255, 255, 255, 255, 255, 253]\<rparr>,
       \<lparr>keyStates = [255, 255, 255, 255, 255, 254, 255, 253]\<rparr>,
       \<lparr>keyStates = [255, 255, 255, 255, 255, 255, 255, 253]\<rparr>,
       \<lparr>keyStates = [255, 255, 255, 255, 255, 255, 254, 255]\<rparr>]
   = [[KEY_J], [], [KEY_P, KEY_SymbolShift], [KEY_SymbolShift],
      [KEY_P, KEY_SymbolShift], [KEY_SymbolShift], [KEY_Enter]]"
  by code_simp

text \<open>
  C7. For the supported ROM kind the command loop performs, on a load command, exactly
  the key operations: J down and up; Symbol Shift down, P down and up twice, Symbol Shift
  up; Enter down and up. Run from the released matrix, none of them fails, the matrix ends
  released, and the matrices that stand during the sleeps show J, then nothing, then
  Symbol Shift with P, Symbol Shift alone, Symbol Shift with P, Symbol Shift alone, then
  Enter. For any other ROM kind the command has no operation at all: the matrix is
  left as it is and nothing fails.
\<close>

theorem SendLoad_macro:
  "filter is_key_op (commandLoop_ops ROM48 (Cmd_SendLoad ROM48)) =
     [OpKeyDown KEY_J, OpKeyUp KEY_J,
      OpKeyDown KEY_SymbolShift, OpKeyDown KEY_P, OpKeyUp KEY_P, OpKeyDown KEY_P, OpKeyUp KEY_P,
      OpKeyUp KEY_SymbolShift,
      OpKeyDown KEY_Enter, OpKeyUp KEY_Enter] \<and>
   (\<exists>held. exec_ops (commandLoop_ops ROM48 (Cmd_SendLoad ROM48)) all_released = Inr (all_released, held) \<and>
      map pressed_keys held =
        [[KEY_J], [], [KEY_P, KEY_SymbolShift], [KEY_SymbolShift],
         [KEY_P, KEY_SymbolShift], [KEY_SymbolShift], [KEY_Enter]]) \<and>
   (romType \<noteq> ROM48 \<longrightarrow>
      commandLoop_ops ROM48 (Cmd_SendLoad romType) = [] \<and>
      exec_ops (commandLoop_ops ROM48 (Cmd_SendLoad romType)) kb = Inr (kb, []))"
  using load_macro_run load_macro_pressed by simp

theorem SendLoad_macro_witness:
  "(1 :: nat) \<noteq> 0 \<and> commandLoop_ops (0 :: nat) (Cmd_SendLoad 1) = [] \<and>
   exec_ops (commandLoop_ops (0 :: nat) (Cmd_SendLoad 1)) pressed_1 = Inr (pressed_1, [])"
  using SendLoad_macro [of 0 1 pressed_1] by simp

subsection \<open>The startup self-check\<close>

lemma used_after_keys:
  "map_of (fold (\<lambda>(logicalKeyCode, _) used. AList.update logicalKeyCode False used) kc used0) k =
     (if k \<in> fst ` set kc then Some False else map_of used0 k)"
  by (induction kc arbitrary: used0) (auto simp: update_conv')

lemma used_after_keys_distinct:
  "distinct (map fst used0) \<Longrightarrow>
   distinct (map fst (fold (\<lambda>(logicalKeyCode, _) used. AList.update logicalKeyCode False used) kc used0))"
  by (induction kc arbitrary: used0) (auto simp: distinct_update)

lemma single_key_seq: "length seq = 1 \<and> seq ! 0 = k \<longleftrightarrow> seq = [k]"
  by (cases seq) auto

lemma used_after_symbols:
  "map_of (fold (\<lambda>(_, seq) used. if length seq = 1 then AList.update (seq ! 0) True used else used)
             km used0) k =
     (if \<exists>n. (n, [k]) \<in> set km then Some True else map_of used0 k)"
proof (induction km arbitrary: used0)
  case Nil
  then show ?case by simp
next
  case (Cons e km)
  obtain n seq where e: "e = (n, seq)" by (cases e)
  show ?case
  proof (cases "length seq = 1")
    case True
    then obtain k' where seq: "seq = [k']" by (cases seq) auto
    show ?thesis
      using Cons.IH [of "AList.update k' True used0"] by (auto simp: e seq update_conv')
  next
    case False
    then have "seq \<noteq> [k]" by auto
    with False Cons.IH [of used0] show ?thesis by (auto simp: e)
  qed
qed

lemma used_after_symbols_distinct:
  "distinct (map fst used0) \<Longrightarrow>
   distinct (map fst (fold (\<lambda>(_, seq) used.
       if length seq = 1 then AList.update (seq ! 0) True used else used) km used0))"
  by (induction km arbitrary: used0) (auto simp: distinct_update)

lemma some_unused_iff:
  assumes "distinct (map fst used)"
  shows "list_ex (\<lambda>(_, isUsed). \<not> isUsed) used \<longleftrightarrow> (\<exists>k. map_of used k = Some False)"
proof -
  have "list_ex (\<lambda>(_, isUsed). \<not> isUsed) used \<longleftrightarrow> (\<exists>k. (k, False) \<in> set used)"
    by (auto simp: list_ex_iff)
  also have "\<dots> \<longleftrightarrow> (\<exists>k. map_of used k = Some False)"
    using assms by (auto dest: map_of_SomeD)
  finally show ?thesis .
qed

lemma init_eq:
  "init kc km =
     (if len_map kc \<noteq> 40 then Inl (Panic ''invalid keyboard specification'')
      else if \<exists>k\<in>fst ` set kc. \<forall>n. (n, [k]) \<notin> set km
           then Inl (Panic ''some key is missing in the SDL keymap'')
           else Inr ())"
proof -
  let ?used0 = "fold (\<lambda>(logicalKeyCode, _) used. AList.update logicalKeyCode False used) kc []"
  let ?used1 = "fold (\<lambda>(_, seq) used.
      if length seq = 1 then AList.update (seq ! 0) True used else used) km ?used0"
  have "distinct (map fst ?used1)"
    by (intro used_after_symbols_distinct used_after_keys_distinct) simp
  then have "list_ex (\<lambda>(_, isUsed). \<not> isUsed) ?used1 \<longleftrightarrow> (\<exists>k. map_of ?used1 k = Some False)"
    by (rule some_unused_iff)
  also have "\<dots> \<longleftrightarrow> (\<exists>k\<in>fst ` set kc. \<forall>n. (n, [k]) \<notin> set km)"
    unfolding used_after_symbols used_after_keys by (auto split: if_splits)
  finally show ?thesis
    by (simp add: init_def Let_def)
qed

lemma len_keyCodes: "len_map keyCodes = 40"
  by code_simp

lemma SDL_KeyMap_covers:
  assumes "k \<in> fst ` set keyCodes"
  shows "\<exists>n. (n, [k]) \<in> set SDL_KeyMap"
proof -
  have "list_all (\<lambda>k. list_ex (\<lambda>(n, seq). seq = [k]) SDL_KeyMap) (map fst keyCodes)"
    by code_simp
  with assms show ?thesis
    by (auto simp: list_all_iff list_ex_iff)
qed

lemma SDL_KeyMap_keys_mapped:
  assumes "(n, seq) \<in> set SDL_KeyMap" "k \<in> set seq"
  shows "k \<in> fst ` set keyCodes"
proof -
  have "list_all (\<lambda>(n, seq). list_all (\<lambda>k. k \<in> set (map fst keyCodes)) seq) SDL_KeyMap"
    by code_simp
  with assms show ?thesis
    by (auto simp: list_all_iff)
qed

lemma SDL_KeyMap_distinct: "distinct (map fst SDL_KeyMap)"
  by (simp add: SDL_KeyMap_def)

lemma init_shipped_tables: "init keyCodes SDL_KeyMap = Inr ()"
  using SDL_KeyMap_covers by (simp add: init_eq len_keyCodes)

lemma init_without_entry:
  "isl (init keyCodes (AList.delete name SDL_KeyMap)) \<longleftrightarrow>
     (\<exists>k. map_of SDL_KeyMap name = Some [k] \<and> (\<forall>n. n \<noteq> name \<longrightarrow> (n, [k]) \<notin> set SDL_KeyMap))"
proof -
  have mem: "(n, seq) \<in> set (AList.delete name SDL_KeyMap) \<longleftrightarrow> (n, seq) \<in> set SDL_KeyMap \<and> n \<noteq> name"
    for n seq
    by (auto simp: AList.delete_eq)
  have "isl (init keyCodes (AList.delete name SDL_KeyMap)) \<longleftrightarrow>
      (\<exists>k\<in>fst ` set keyCodes. \<forall>n. (n, [k]) \<in> set SDL_KeyMap \<longrightarrow> n = name)"
    unfolding init_eq mem by (auto simp: len_keyCodes)
  also have "\<dots> \<longleftrightarrow>
      (\<exists>k. map_of SDL_KeyMap name = Some [k] \<and> (\<forall>n. n \<noteq> name \<longrightarrow> (n, [k]) \<notin> set SDL_KeyMap))"
  proof
    assume "\<exists>k\<in>fst ` set keyCodes. \<forall>n. (n, [k]) \<in> set SDL_KeyMap \<longrightarrow> n = name"
    then obtain k where k: "k \<in> fst ` set keyCodes"
      and only: "\<And>n. (n, [k]) \<in> set SDL_KeyMap \<Longrightarrow> n = name" by blast
    from SDL_KeyMap_covers [OF k] obtain n0 where "(n0, [k]) \<in> set SDL_KeyMap" ..
    with only have "(name, [k]) \<in> set SDL_KeyMap" by auto
    with SDL_KeyMap_distinct have "map_of SDL_KeyMap name = Some [k]" by simp
    with only show "\<exists>k. map_of SDL_KeyMap name = Some [k] \<and>
        (\<forall>n. n \<noteq> name \<longrightarrow> (n, [k]) \<notin> set SDL_KeyMap)" by blast
  next
    assume "\<exists>k. map_of SDL_KeyMap name = Some [k] \<and> (\<forall>n. n \<noteq> name \<longrightarrow> (n, [k]) \<notin> set SDL_KeyMap)"
    then obtain k where look: "map_of SDL_KeyMap name = Some [k]"
      and only: "\<And>n. n \<noteq> name \<Longrightarrow> (n, [k]) \<notin> set SDL_KeyMap" by blast
    from look have "(name, [k]) \<in> set SDL_KeyMap" by (rule map_of_SomeD)
    then have "k \<in> fst ` set keyCodes" by (rule SDL_KeyMap_keys_mapped) simp
    with only show "\<exists>k\<in>fst ` set keyCodes. \<forall>n. (n, [k]) \<in> set SDL_KeyMap \<longrightarrow> n = name"
      by blast
  qed
  finally show ?thesis .
qed

text \<open>
  C1, as stated: removing any one entry of the symbol table, the 40-key table unchanged,
  makes the self-check abort. It does not for an entry whose key another one-key entry
  reaches: without the keypad entry \<open>[0]\<close> the check still passes, since \<open>0\<close> maps to the
  same key.
\<close>

theorem init_without_alias_counterexample:
  "init keyCodes (AList.delete ''[0]'' SDL_KeyMap) = Inr ()"
  by code_simp

text \<open>
  C1, amended. The self-check aborts if and only if the logical-key table does not have
  exactly 40 entries or some key of that table is not the single key of a one-key entry
  of the symbol table (an entry that maps to a chord reaches no key). The shipped tables
  pass. Removing the entry \<open>name\<close> from the shipped symbol table makes the check abort
  exactly when that entry maps to a single key that no other entry maps to alone.
\<close>

theorem init_aborts_iff:
  "(isl (init kc km) \<longleftrightarrow> len_map kc \<noteq> 40 \<or> (\<exists>k\<in>fst ` set kc. \<forall>n. (n, [k]) \<notin> set km)) \<and>
   init keyCodes SDL_KeyMap = Inr () \<and>
   (isl (init keyCodes (AList.delete name SDL_KeyMap)) \<longleftrightarrow>
      (\<exists>k. map_of SDL_KeyMap name = Some [k] \<and> (\<forall>n. n \<noteq> name \<longrightarrow> (n, [k]) \<notin> set SDL_KeyMap)))"
  using init_shipped_tables init_without_entry [of name] by (simp add: init_eq)

theorem init_aborts_iff_witness:
  "init keyCodes (AList.delete ''a'' SDL_KeyMap) = Inl (Panic ''some key is missing in the SDL keymap'') \<and>
   isl (init keyCodes (AList.delete ''a'' SDL_KeyMap)) \<and>
   map_of SDL_KeyMap ''a'' = Some [KEY_A] \<and>
   len_map (tl keyCodes) = 39 \<and> isl (init (tl keyCodes) SDL_KeyMap) \<and>
   \<not> isl (init keyCodes (AList.delete ''left'' SDL_KeyMap))"
proof -
  have 1: "init keyCodes (AList.delete ''a'' SDL_KeyMap) =
      Inl (Panic ''some key is missing in the SDL keymap'')"
    by code_simp
  have 2: "map_of SDL_KeyMap ''a'' = Some [KEY_A]"
    by (simp add: SDL_KeyMap_def)
  have 3: "len_map (tl keyCodes) = 39"
    by code_simp
  have 4: "map_of SDL_KeyMap ''left'' = Some [KEY_CapsShift, KEY_5]"
    by (simp add: SDL_KeyMap_def)
  from init_aborts_iff [of "tl keyCodes" SDL_KeyMap "''a''"] 3
  have 5: "isl (init (tl keyCodes) SDL_KeyMap)" by simp
  from init_aborts_iff [of keyCodes SDL_KeyMap "''left''"] 4
  have 6: "\<not> isl (init keyCodes (AList.delete ''left'' SDL_KeyMap))" by simp
  from 1 2 3 5 6 show ?thesis by simp
qed

subsection \<open>KeyPressSequence and the command loop\<close>
































end
